theory Spec2Isabelle
  imports Main "HOL-Library.Monad_Syntax"
begin

section \<open>Constants, orderings and data\<close>

text \<open>
  A \<open>SordNode*\<close> is an address; the null pointer is the address 0 (the source calls it
  "the null ID, 0"). Live nodes have addresses from 1 on.
\<close>

type_synonym SordNodeRef = nat

definition NULL :: SordNodeRef where [simp]: "NULL = 0"

definition NUM_ORDERS :: nat where [simp]: "NUM_ORDERS = 12"
definition TUP_LEN :: nat where [simp]: "TUP_LEN = 4"

definition TUP_S :: nat where [simp]: "TUP_S = 0"
definition TUP_P :: nat where [simp]: "TUP_P = 1"
definition TUP_O :: nat where [simp]: "TUP_O = 2"
definition TUP_G :: nat where [simp]: "TUP_G = 3"

text \<open>\<open>SordOrder\<close> is a C enum; the code adds to it and compares it, so it is a number.\<close>

definition SPO :: nat where [simp]: "SPO = 0"
definition SOP :: nat where [simp]: "SOP = 1"
definition OPS :: nat where [simp]: "OPS = 2"
definition OSP :: nat where [simp]: "OSP = 3"
definition PSO :: nat where [simp]: "PSO = 4"
definition POS :: nat where [simp]: "POS = 5"
definition GSPO :: nat where [simp]: "GSPO = 6"
definition GSOP :: nat where [simp]: "GSOP = 7"
definition GOPS :: nat where [simp]: "GOPS = 8"
definition GOSP :: nat where [simp]: "GOSP = 9"
definition GPSO :: nat where [simp]: "GPSO = 10"
definition GPOS :: nat where [simp]: "GPOS = 11"

definition DEFAULT_ORDER :: nat where [simp]: "DEFAULT_ORDER = SPO"
definition DEFAULT_GRAPH_ORDER :: nat where [simp]: "DEFAULT_GRAPH_ORDER = GSPO"

text \<open>A \<open>SordQuad\<close> is an array of four node pointers.\<close>

type_synonym SordQuad = "SordNodeRef \<times> SordNodeRef \<times> SordNodeRef \<times> SordNodeRef"

fun tup_get :: "SordQuad \<Rightarrow> nat \<Rightarrow> SordNodeRef" where
  "tup_get (a, b, c, d) i = (if i = 0 then a else if i = 1 then b else if i = 2 then c else d)"

fun tup_set :: "SordQuad \<Rightarrow> nat \<Rightarrow> SordNodeRef \<Rightarrow> SordQuad" where
  "tup_set (a, b, c, d) i v =
     (if i = 0 then (v, b, c, d) else if i = 1 then (a, v, c, d)
      else if i = 2 then (a, b, v, d) else (a, b, c, v))"

text \<open>The table \<open>orderings[NUM_ORDERS][TUP_LEN]\<close>, indexed by \<open>SordOrder\<close>.\<close>

definition orderings :: "nat \<Rightarrow> nat \<times> nat \<times> nat \<times> nat" where
  "orderings order =
     (if order = SPO then (0, 1, 2, 3) else if order = SOP then (0, 2, 1, 3)
      else if order = OPS then (2, 1, 0, 3) else if order = OSP then (2, 0, 1, 3)
      else if order = PSO then (1, 0, 2, 3) else if order = POS then (1, 2, 0, 3)
      else if order = GSPO then (3, 0, 1, 2) else if order = GSOP then (3, 0, 2, 1)
      else if order = GOPS then (3, 2, 1, 0) else if order = GOSP then (3, 2, 0, 1)
      else if order = GPSO then (3, 1, 0, 2) else (3, 1, 2, 0))"

text \<open>
  The key of a quad in an index, as \<open>sord_add_to_index\<close>, \<open>sord_remove\<close>,
  \<open>sord_find\<close> and \<open>sord_iter_new\<close> all build it:
  \<open>{ tup[ordering[0]], tup[ordering[1]], tup[ordering[2]], tup[ordering[3]] }\<close>.
\<close>

fun permute :: "nat \<times> nat \<times> nat \<times> nat \<Rightarrow> SordQuad \<Rightarrow> SordQuad" where
  "permute (o0, o1, o2, o3) tup = (tup_get tup o0, tup_get tup o1, tup_get tup o2, tup_get tup o3)"

datatype SordNodeType = SORD_URI | SORD_BLANK | SORD_LITERAL

text \<open>
  Modelled from the spec: the numeric values of the node kinds, declared in the public
  header (not among the sources): "URI < Blank < Literal by numeric kind index".
\<close>

fun type_index :: "SordNodeType \<Rightarrow> int" where
  "type_index SORD_URI = 1"
| "type_index SORD_BLANK = 2"
| "type_index SORD_LITERAL = 3"

text \<open>
  Modelled from the spec: \<open>struct SordNodeImpl\<close> is declared in \<open>sord_internal.h\<close>
  (not among the sources); its fields are the ones the source reads and writes, and the
  ones the spec's data model lists. The language tag is a pointer to a string (null when
  the literal has none). The two reference counts are modelled unbounded.
\<close>

record SordNode =
  node_type :: SordNodeType
  buf :: string
  n_bytes :: nat
  refs :: nat
  refs_as_obj :: nat
  datatype_node :: SordNodeRef
  lang :: nat
  flags :: nat

text \<open>
  \<open>struct SordWorldImpl\<close>: the three hash tables and the node count. The table of
  language tags maps a tag to the pointer to its interned copy. The literal table is
  keyed by what \<open>sord_literal_equal\<close> compares: string, language pointer, datatype
  pointer. The memory that holds the nodes and the interned tags belongs to the world's
  state: \<open>nodes\<close> maps an address to the node stored there, \<open>tags\<close> maps an address to
  the copy of a tag stored there, and \<open>next_node\<close> is the address the next allocation
  returns (addresses are never handed out twice).
\<close>

record SordWorld =
  names :: "string \<rightharpoonup> SordNodeRef"
  langs :: "string \<rightharpoonup> nat"
  literals :: "(string \<times> nat \<times> SordNodeRef) \<rightharpoonup> SordNodeRef"
  n_nodes :: nat
  nodes :: "SordNodeRef \<rightharpoonup> SordNode"
  tags :: "nat \<rightharpoonup> string"
  next_node :: nat

text \<open>
  A \<open>GSequence\<close> of keys is the list of its elements in sequence order; a
  \<open>GSequenceIter\<close> is a position in it, the end iterator being the length.
\<close>

type_synonym GSequence = "SordQuad list"

text \<open>
  \<open>struct SordModelImpl\<close>: the array of twelve indices (a null pointer is \<open>None\<close>) and
  the quad count. The model's pointer to its world is not stored: every operation takes
  the world as an argument.
\<close>

record SordModel =
  indices :: "nat \<Rightarrow> GSequence option"
  n_quads :: nat

text \<open>The enum \<open>SearchMode\<close>; its first value \<open>ALL\<close> is written \<open>ALL_MODE\<close>.\<close>

datatype SearchMode = ALL_MODE | SINGLE | RANGE | FILTER_RANGE | FILTER_ALL

text \<open>
  \<open>struct SordIterImpl\<close>. The cursor is a position in the index the iterator walks; the
  index is named by \<open>order\<close> (the source keeps the pointer to the model and a cursor
  into one of its sequences).
\<close>

record SordIter =
  order :: nat
  cur :: nat
  pat :: SordQuad
  ordering :: "nat \<times> nat \<times> nat \<times> nat"
  mode :: SearchMode
  n_prefix :: nat
  at_end :: bool
  skip_graphs :: bool

definition sord_world_new :: SordWorld where
  "sord_world_new =
     \<lparr>names = Map.empty, langs = Map.empty, literals = Map.empty, n_nodes = 0,
      nodes = Map.empty, tags = Map.empty, next_node = 1\<rparr>"

section \<open>Comparing nodes and quads\<close>

text \<open>
  \<open>strcmp\<close> on C strings (no embedded NUL): the difference of the first pair of bytes
  that differ, the terminator counting as byte 0. Only its sign is used by the source.
\<close>

fun strcmp :: "string \<Rightarrow> string \<Rightarrow> int" where
  "strcmp [] [] = 0"
| "strcmp [] (y # ys) = - int (of_char y)"
| "strcmp (x # xs) [] = int (of_char x)"
| "strcmp (x # xs) (y # ys) =
     (if x = y then strcmp xs ys else int (of_char x) - int (of_char y))"

text \<open>
  A pointer is the address it holds, the null pointer the address 0. Where the source
  returns the difference of two pointers as an \<open>int\<close>, the 64-bit difference is
  narrowed to 32 bits: its low 32 bits, read as a signed number. The source takes such a
  difference of a pointer and itself, and of a null pointer and a pointer to a node or
  to a tag. In \<open>sord_id_compare\<close> (on \<open>char\<close> pointers) and for tags it counts bytes,
  as the model does. For the node pointers of \<open>sord_node_compare\<close> it counts nodes;
  the size of the struct is not in the sources, and the model takes the difference of
  the addresses there too.
\<close>

definition ptr_diff :: "nat \<Rightarrow> nat \<Rightarrow> int" where
  "ptr_diff a b = (int a - int b + 2147483648) mod 4294967296 - 2147483648"

text \<open>
  The language comparison of \<open>sord_node_compare\<close>: the pointer difference when either
  tag is null, \<open>strcmp\<close> of the two tags otherwise. Reading a tag through a pointer
  that is not one of the world's interned tags has no defined result.
\<close>

definition lang_compare :: "SordWorld \<Rightarrow> nat \<Rightarrow> nat \<Rightarrow> int option" where
  "lang_compare w a b =
     (if a = NULL \<or> b = NULL then Some (ptr_diff a b)
      else case tags w a of None \<Rightarrow> None | Some sa \<Rightarrow>
        (case tags w b of None \<Rightarrow> None | Some sb \<Rightarrow> Some (strcmp sa sb)))"

text \<open>
  \<open>sord_node_compare\<close>. Reading through a pointer that holds no node has no defined
  result (\<open>None\<close>), and so has a recursion on datatypes that never ends.
\<close>

partial_function (option) sord_node_compare :: "SordWorld \<Rightarrow> SordNodeRef \<Rightarrow> SordNodeRef \<Rightarrow> int option"
where
  "sord_node_compare w a b =
     (if a = b then Some 0
      else if a = NULL \<or> b = NULL then Some (ptr_diff a b)
      else case nodes w a of None \<Rightarrow> None | Some na \<Rightarrow>
        (case nodes w b of None \<Rightarrow> None | Some nb \<Rightarrow>
          (if node_type na \<noteq> node_type nb
           then Some (type_index (node_type na) - type_index (node_type nb))
           else (case node_type na of
               SORD_URI \<Rightarrow> Some (strcmp (buf na) (buf nb))
             | SORD_BLANK \<Rightarrow> Some (strcmp (buf na) (buf nb))
             | SORD_LITERAL \<Rightarrow>
                 (if strcmp (buf na) (buf nb) \<noteq> 0 then Some (strcmp (buf na) (buf nb))
                  else Option.bind (sord_node_compare w (datatype_node na) (datatype_node nb))
                    (\<lambda>cmp. if cmp \<noteq> 0 then Some cmp
                           else lang_compare w (lang na) (lang nb)))))))"

declare sord_node_compare.simps [code]

definition sord_id_compare :: "SordWorld \<Rightarrow> SordNodeRef \<Rightarrow> SordNodeRef \<Rightarrow> int option" where
  "sord_id_compare w a b =
     (if a = b \<or> a = NULL \<or> b = NULL then Some (ptr_diff a b)
      else sord_node_compare w a b)"

definition sord_id_match :: "SordNodeRef \<Rightarrow> SordNodeRef \<Rightarrow> bool" where
  "sord_id_match a b = (a = NULL \<or> b = NULL \<or> a = b)"

definition sord_quad_match_inline :: "SordQuad \<Rightarrow> SordQuad \<Rightarrow> bool" where
  "sord_quad_match_inline x y =
     (sord_id_match (tup_get x 0) (tup_get y 0)
      \<and> sord_id_match (tup_get x 1) (tup_get y 1)
      \<and> sord_id_match (tup_get x 2) (tup_get y 2)
      \<and> sord_id_match (tup_get x 3) (tup_get y 3))"

text \<open>The loop of \<open>sord_quad_compare\<close> over the positions it has still to compare.\<close>

fun sord_quad_compare_loop :: "SordWorld \<Rightarrow> SordQuad \<Rightarrow> SordQuad \<Rightarrow> nat list \<Rightarrow> int option" where
  "sord_quad_compare_loop w x y [] = Some 0"
| "sord_quad_compare_loop w x y (i # is) =
     (case sord_id_compare w (tup_get x i) (tup_get y i) of
        None \<Rightarrow> None
      | Some cmp \<Rightarrow> if cmp \<noteq> 0 then Some cmp else sord_quad_compare_loop w x y is)"

definition sord_quad_compare :: "SordWorld \<Rightarrow> SordQuad \<Rightarrow> SordQuad \<Rightarrow> int option" where
  "sord_quad_compare w x y = sord_quad_compare_loop w x y [0 ..< TUP_LEN]"


section \<open>The ordered container\<close>

text \<open>
  The indices are GLib sequences. GLib is a library the program links against, so its
  operations are modelled by their documented behaviour on a sorted sequence:
  \<open>g_sequence_search\<close> "returns an iterator pointing to the position where data would
  have been inserted according to \<open>cmp_func\<close>", which is behind every element that
  does not compare greater than the data (the source says so itself: the position "is
  not necessarily a match", it is "perhaps immediately after a match"). Stepping back
  from the begin iterator gives the begin iterator, stepping forward from the end
  iterator the end iterator, and the end iterator holds no data.
\<close>

definition g_sequence_iter_is_begin :: "nat \<Rightarrow> bool" where
  "g_sequence_iter_is_begin i = (i = 0)"

definition g_sequence_iter_is_end :: "GSequence \<Rightarrow> nat \<Rightarrow> bool" where
  "g_sequence_iter_is_end db i = (length db \<le> i)"

definition g_sequence_iter_next :: "GSequence \<Rightarrow> nat \<Rightarrow> nat" where
  "g_sequence_iter_next db i = (if i < length db then Suc i else i)"

definition g_sequence_iter_prev :: "nat \<Rightarrow> nat" where
  "g_sequence_iter_prev i = i - 1"

definition g_sequence_get :: "GSequence \<Rightarrow> nat \<Rightarrow> SordQuad option" where
  "g_sequence_get db i = (if i < length db then Some (db ! i) else None)"

definition g_sequence_insert_before :: "GSequence \<Rightarrow> nat \<Rightarrow> SordQuad \<Rightarrow> GSequence" where
  "g_sequence_insert_before db i key = take i db @ key # drop i db"

definition g_sequence_remove :: "GSequence \<Rightarrow> nat \<Rightarrow> GSequence" where
  "g_sequence_remove db i = take i db @ drop (Suc i) db"

fun g_sequence_search :: "(SordQuad \<Rightarrow> SordQuad \<Rightarrow> int option) \<Rightarrow> GSequence \<Rightarrow> SordQuad \<Rightarrow> nat option" where
  "g_sequence_search cmp [] key = Some 0"
| "g_sequence_search cmp (e # es) key =
     (case cmp e key of
        None \<Rightarrow> None
      | Some c \<Rightarrow> if c > 0 then Some 0 else map_option Suc (g_sequence_search cmp es key))"

section \<open>Iterators\<close>

text \<open>The loop of \<open>sord_iter_forward\<close> that skips the keys equal in their first three nodes.\<close>

function sord_iter_forward_loop :: "GSequence \<Rightarrow> SordQuad \<Rightarrow> nat \<Rightarrow> nat \<times> bool" where
  "sord_iter_forward_loop db initial c =
     (let c' = g_sequence_iter_next db c in
      if g_sequence_iter_is_end db c' then (c', True)
      else if tup_get (db ! c') 0 \<noteq> tup_get initial 0
            \<or> tup_get (db ! c') 1 \<noteq> tup_get initial 1
            \<or> tup_get (db ! c') 2 \<noteq> tup_get initial 2 then (c', False)
      else sord_iter_forward_loop db initial c')"
  by pat_completeness auto
termination
  by (relation "measure (\<lambda>(db, initial, c). length db - c)")
     (auto simp: g_sequence_iter_next_def g_sequence_iter_is_end_def split: if_splits)

declare sord_iter_forward_loop.simps [simp del]

definition sord_iter_forward :: "GSequence \<Rightarrow> SordIter \<Rightarrow> (bool \<times> SordIter) option" where
  "sord_iter_forward db iter =
     (if \<not> skip_graphs iter then
        (let c = g_sequence_iter_next db (cur iter)
         in Some (g_sequence_iter_is_end db c, iter\<lparr>cur := c\<rparr>))
      else
        (case g_sequence_get db (cur iter) of
           None \<Rightarrow> None
         | Some initial \<Rightarrow>
             (let (c, e) = sord_iter_forward_loop db initial (cur iter)
              in Some (e, iter\<lparr>cur := c\<rparr>))))"

lemma sord_iter_forward_loop_cur:
  "c < length db \<Longrightarrow> c < fst (sord_iter_forward_loop db initial c)"
proof (induction db initial c rule: sord_iter_forward_loop.induct)
  case (1 db initial c)
  show ?case
  proof (cases "g_sequence_iter_is_end db (g_sequence_iter_next db c)")
    case True
    with "1.prems" show ?thesis
      by (subst sord_iter_forward_loop.simps) (simp add: g_sequence_iter_next_def Let_def)
  next
    case False
    then have lt: "Suc c < length db"
      using "1.prems" by (simp add: g_sequence_iter_next_def g_sequence_iter_is_end_def)
    have nx: "g_sequence_iter_next db c = Suc c"
      using "1.prems" by (simp add: g_sequence_iter_next_def)
    show ?thesis
    proof (cases "tup_get (db ! Suc c) 0 \<noteq> tup_get initial 0
            \<or> tup_get (db ! Suc c) 1 \<noteq> tup_get initial 1
            \<or> tup_get (db ! Suc c) 2 \<noteq> tup_get initial 2")
      case True
      with False nx show ?thesis
        by (subst sord_iter_forward_loop.simps) (simp add: Let_def)
    next
      case diff: False
      have "Suc c < fst (sord_iter_forward_loop db initial (Suc c))"
        using "1.IH"[OF refl] False diff nx lt by simp
      with False diff nx show ?thesis
        by (subst sord_iter_forward_loop.simps) (simp add: Let_def)
    qed
  qed
qed

lemma sord_iter_forward_cur:
  assumes "sord_iter_forward db iter = Some (e, iter')" and "cur iter < length db"
  shows "cur iter < cur iter'"
proof (cases "skip_graphs iter")
  case False
  with assms show ?thesis
    by (auto simp: sord_iter_forward_def g_sequence_iter_next_def Let_def)
next
  case True
  with assms have "cur iter' = fst (sord_iter_forward_loop db (db ! cur iter) (cur iter))"
    by (auto simp: sord_iter_forward_def g_sequence_get_def split: prod.splits)
  with assms(2) show ?thesis
    by (simp add: sord_iter_forward_loop_cur)
qed

text \<open>
  The loop of \<open>sord_iter_seek_match\<close>; the function sets \<open>iter->end\<close> before it starts.
\<close>

function sord_iter_seek_match_loop :: "GSequence \<Rightarrow> SordIter \<Rightarrow> (bool \<times> SordIter) option" where
  "sord_iter_seek_match_loop db iter =
     (if g_sequence_iter_is_end db (cur iter) then Some (True, iter)
      else case g_sequence_get db (cur iter) of
          None \<Rightarrow> None
        | Some key \<Rightarrow>
            if sord_quad_match_inline key (pat iter) then Some (False, iter\<lparr>at_end := False\<rparr>)
            else (case sord_iter_forward db iter of
                None \<Rightarrow> None
              | Some (e, iter') \<Rightarrow> sord_iter_seek_match_loop db iter'))"
  by pat_completeness auto
termination
proof (relation "measure (\<lambda>(db, iter). length db - cur iter)", goal_cases)
  case 1
  show ?case by simp
next
  case (2 db iter key x e iter')
  then have "cur iter < length db"
    by (simp add: g_sequence_iter_is_end_def)
  moreover from this 2 have "cur iter < cur iter'"
    using sord_iter_forward_cur by metis
  ultimately show ?case by simp
qed

declare sord_iter_seek_match_loop.simps [simp del]

definition sord_iter_seek_match :: "GSequence \<Rightarrow> SordIter \<Rightarrow> (bool \<times> SordIter) option" where
  "sord_iter_seek_match db iter = sord_iter_seek_match_loop db (iter\<lparr>at_end := True\<rparr>)"

text \<open>
  The prefix test of \<open>sord_iter_seek_match_range\<close> and \<open>sord_iter_next\<close>: false at the
  first of the leading \<open>n_prefix\<close> positions that does not match; a position outside the
  four-element arrays is an out-of-bounds read.
\<close>

fun prefix_match_loop :: "SordQuad \<Rightarrow> SordQuad \<Rightarrow> nat list \<Rightarrow> bool option" where
  "prefix_match_loop key p [] = Some True"
| "prefix_match_loop key p (i # is) =
     (if TUP_LEN \<le> i then None
      else if \<not> sord_id_match (tup_get key i) (tup_get p i) then Some False
      else prefix_match_loop key p is)"

definition prefix_match :: "nat \<Rightarrow> SordQuad \<Rightarrow> SordQuad \<Rightarrow> bool option" where
  "prefix_match n key p = prefix_match_loop key p [0 ..< n]"

function sord_iter_seek_match_range_loop :: "GSequence \<Rightarrow> SordIter \<Rightarrow> (bool \<times> SordIter) option" where
  "sord_iter_seek_match_range_loop db iter =
     (case g_sequence_get db (cur iter) of
        None \<Rightarrow> None
      | Some key \<Rightarrow>
          if sord_quad_match_inline key (pat iter) then Some (False, iter)
          else (case prefix_match (n_prefix iter) key (pat iter) of
              None \<Rightarrow> None
            | Some False \<Rightarrow> Some (True, iter\<lparr>at_end := True\<rparr>)
            | Some True \<Rightarrow>
                (case sord_iter_forward db iter of
                   None \<Rightarrow> None
                 | Some (e, iter') \<Rightarrow>
                     if \<not> e then sord_iter_seek_match_range_loop db iter'
                     else Some (True, iter'\<lparr>at_end := True\<rparr>))))"
  by pat_completeness auto
termination
proof (relation "measure (\<lambda>(db, iter). length db - cur iter)", goal_cases)
  case 1
  show ?case by simp
next
  case (2 db iter key b x e iter')
  then have "cur iter < length db"
    by (simp add: g_sequence_get_def split: if_splits)
  moreover from this 2 have "cur iter < cur iter'"
    using sord_iter_forward_cur by metis
  ultimately show ?case by simp
qed

declare sord_iter_seek_match_range_loop.simps [simp del]

definition sord_iter_seek_match_range :: "GSequence \<Rightarrow> SordIter \<Rightarrow> (bool \<times> SordIter) option" where
  "sord_iter_seek_match_range db iter =
     (if at_end iter then Some (True, iter) else sord_iter_seek_match_range_loop db iter)"

text \<open>
  \<open>sord_iter_new\<close>, given the sequence the cursor points into. The assertion of the modes
  \<open>ALL\<close>, \<open>SINGLE\<close> and \<open>RANGE\<close> is a failure (\<open>None\<close>) when it does not hold.
\<close>

definition sord_iter_new :: "GSequence \<Rightarrow> nat \<Rightarrow> SordQuad \<Rightarrow> nat \<Rightarrow> SearchMode \<Rightarrow> nat \<Rightarrow> SordIter option" where
  "sord_iter_new db c p ord m n =
     (let iter = \<lparr>order = ord, cur = c, pat = permute (orderings ord) p,
                  ordering = orderings ord, mode = m, n_prefix = n, at_end = False,
                  skip_graphs = (ord < GSPO)\<rparr>
      in case m of
           FILTER_RANGE \<Rightarrow> map_option snd (sord_iter_seek_match_range db iter)
         | FILTER_ALL \<Rightarrow> map_option snd (sord_iter_seek_match db iter)
         | _ \<Rightarrow> (case g_sequence_get db c of
                   None \<Rightarrow> None
                 | Some key \<Rightarrow> if sord_quad_match_inline key (pat iter) then Some iter else None))"

fun sord_iter_get_loop :: "nat \<times> nat \<times> nat \<times> nat \<Rightarrow> SordQuad \<Rightarrow> SordQuad \<Rightarrow> SordQuad" where
  "sord_iter_get_loop (o0, o1, o2, o3) key out =
     tup_set (tup_set (tup_set (tup_set out o0 (tup_get key 0)) o1 (tup_get key 1))
        o2 (tup_get key 2)) o3 (tup_get key 3)"

definition sord_iter_get :: "GSequence \<Rightarrow> SordIter \<Rightarrow> SordQuad option" where
  "sord_iter_get db iter =
     map_option (\<lambda>key. sord_iter_get_loop (ordering iter) key (NULL, NULL, NULL, NULL))
       (g_sequence_get db (cur iter))"

definition sord_iter_next :: "GSequence \<Rightarrow> SordIter \<Rightarrow> (bool \<times> SordIter) option" where
  "sord_iter_next db iter =
     (if at_end iter then Some (True, iter)
      else case sord_iter_forward db iter of
          None \<Rightarrow> None
        | Some (e, iter1) \<Rightarrow>
            (let iter2 = iter1\<lparr>at_end := e\<rparr> in
             if e then Some (True, iter2)
             else (case mode iter2 of
                 ALL_MODE \<Rightarrow> Some (False, iter2)
               | SINGLE \<Rightarrow> Some (True, iter2\<lparr>at_end := True\<rparr>)
               | RANGE \<Rightarrow>
                   (case g_sequence_get db (cur iter2) of
                      None \<Rightarrow> None
                    | Some key \<Rightarrow>
                        (case prefix_match (n_prefix iter2) key (pat iter2) of
                           None \<Rightarrow> None
                         | Some ok \<Rightarrow> Some (\<not> ok, iter2\<lparr>at_end := \<not> ok\<rparr>)))
               | FILTER_RANGE \<Rightarrow>
                   map_option (\<lambda>(r, iter3). (at_end iter3, iter3)) (sord_iter_seek_match_range db iter2)
               | FILTER_ALL \<Rightarrow>
                   map_option (\<lambda>(r, iter3). (at_end iter3, iter3)) (sord_iter_seek_match db iter2))))"

text \<open>Every step of an iterator that has not ended moves its cursor on.\<close>

lemma sord_iter_seek_match_loop_cur:
  "sord_iter_seek_match_loop db iter = Some (e, iter') \<Longrightarrow> cur iter \<le> cur iter'"
proof (induction db iter rule: sord_iter_seek_match_loop.induct)
  case (1 db iter)
  note eq = "1.prems"[unfolded sord_iter_seek_match_loop.simps[of db iter]]
  show ?case
  proof (cases "g_sequence_iter_is_end db (cur iter)")
    case True
    with eq show ?thesis by simp
  next
    case False
    with eq obtain key where k: "g_sequence_get db (cur iter) = Some key"
      by (auto split: option.splits)
    show ?thesis
    proof (cases "sord_quad_match_inline key (pat iter)")
      case True
      with eq False k show ?thesis by auto
    next
      case nm: False
      with eq False k obtain e1 it1 where f: "sord_iter_forward db iter = Some (e1, it1)"
        and l: "sord_iter_seek_match_loop db it1 = Some (e, iter')"
        by (auto split: option.splits)
      from False have "cur iter < length db"
        by (simp add: g_sequence_iter_is_end_def)
      with f have "cur iter < cur it1"
        by (rule sord_iter_forward_cur)
      moreover have "cur it1 \<le> cur iter'"
        using "1.IH"[OF False k nm f refl l] .
      ultimately show ?thesis by simp
    qed
  qed
qed

lemma sord_iter_seek_match_range_loop_cur:
  "sord_iter_seek_match_range_loop db iter = Some (e, iter') \<Longrightarrow> cur iter \<le> cur iter'"
proof (induction db iter rule: sord_iter_seek_match_range_loop.induct)
  case (1 db iter)
  note eq = "1.prems"[unfolded sord_iter_seek_match_range_loop.simps[of db iter]]
  from eq obtain key where k: "g_sequence_get db (cur iter) = Some key"
    by (auto split: option.splits)
  then have lt: "cur iter < length db"
    by (simp add: g_sequence_get_def split: if_splits)
  show ?case
  proof (cases "sord_quad_match_inline key (pat iter)")
    case True
    with eq k show ?thesis by auto
  next
    case nm: False
    with eq k obtain ok where p: "prefix_match (n_prefix iter) key (pat iter) = Some ok"
      by (auto split: option.splits)
    show ?thesis
    proof (cases ok)
      case False
      with eq k nm p show ?thesis by auto
    next
      case True
      with eq k nm p obtain e1 it1 where f: "sord_iter_forward db iter = Some (e1, it1)"
        by (auto split: option.splits)
      from f lt have c: "cur iter < cur it1"
        by (rule sord_iter_forward_cur)
      show ?thesis
      proof (cases e1)
        case e: True
        with eq k nm p True f c show ?thesis by auto
      next
        case ne: False
        with eq k nm p True f have l: "sord_iter_seek_match_range_loop db it1 = Some (e, iter')"
          by simp
        from True have okT: "ok = True" by simp
        have "cur it1 \<le> cur iter'"
          using "1.IH"[OF k nm p okT f refl ne l] .
        with c show ?thesis by simp
      qed
    qed
  qed
qed

lemma sord_iter_next_cur:
  assumes "sord_iter_next db iter = Some (e, iter')" and "\<not> at_end iter" and "cur iter < length db"
  shows "cur iter < cur iter'"
proof -
  from assms obtain e1 it1 where f: "sord_iter_forward db iter = Some (e1, it1)"
    by (auto simp: sord_iter_next_def split: option.splits)
  from f assms(3) have c: "cur iter < cur it1"
    by (rule sord_iter_forward_cur)
  have "cur it1 \<le> cur iter'"
  proof (cases e1)
    case True
    with assms f show ?thesis by (auto simp: sord_iter_next_def)
  next
    case False
    show ?thesis
    proof (cases "mode it1")
      case ALL_MODE
      with assms f False show ?thesis by (auto simp: sord_iter_next_def)
    next
      case SINGLE
      with assms f False show ?thesis by (auto simp: sord_iter_next_def)
    next
      case RANGE
      with assms f False show ?thesis
        by (auto simp: sord_iter_next_def Let_def split: option.splits)
    next
      case FILTER_RANGE
      with assms f False show ?thesis
        using sord_iter_seek_match_range_loop_cur[of db "it1\<lparr>at_end := False\<rparr>"]
        by (auto simp: sord_iter_next_def sord_iter_seek_match_range_def split: option.splits)
    next
      case FILTER_ALL
      with assms f False show ?thesis
        using sord_iter_seek_match_loop_cur[of db "it1\<lparr>at_end := True\<rparr>"]
        by (auto simp: sord_iter_next_def sord_iter_seek_match_def split: option.splits)
    qed
  qed
  with c show ?thesis by simp
qed

text \<open>\<open>sord_iter_end\<close> of an iterator pointer; the null iterator is \<open>None\<close>.\<close>

definition sord_iter_end :: "SordIter option \<Rightarrow> bool" where
  "sord_iter_end iter = (case iter of None \<Rightarrow> True | Some i \<Rightarrow> at_end i)"


section \<open>Choosing an index\<close>

text \<open>
  \<open>sord_has_index\<close> writes through its pointers \<open>order\<close> and \<open>n_prefix\<close>; the model
  returns the result with their new values.
\<close>

definition sord_has_index :: "SordModel \<Rightarrow> nat \<Rightarrow> nat \<Rightarrow> bool \<Rightarrow> bool \<times> nat \<times> nat" where
  "sord_has_index sord ord n graph_search =
     (let ord' = (if graph_search then ord + GSPO else ord);
          n' = (if graph_search then n + 1 else n)
      in (indices sord ord' \<noteq> None, ord', n'))"

text \<open>
  \<open>sord_best_index\<close>: the order it returns, with the mode and the prefix length it
  writes. The signature is \<open>0x100\<close>, \<open>0x010\<close>, \<open>0x001\<close> for a bound subject, predicate,
  object (256, 16, 1); the two switches list no other value than the eight sums.
\<close>

definition sord_best_index :: "SordModel \<Rightarrow> SordQuad \<Rightarrow> nat \<times> SearchMode \<times> nat" where
  "sord_best_index sord p =
     (let graph_search = (tup_get p TUP_G \<noteq> NULL);
          sig = (if tup_get p 0 \<noteq> NULL then 1 else 0) * 256
              + (if tup_get p 1 \<noteq> NULL then 1 else 0) * 16
              + (if tup_get p 2 \<noteq> NULL then 1 else (0::nat)) * 1
      in if sig = 0 then
           (if graph_search then DEFAULT_GRAPH_ORDER else DEFAULT_ORDER, ALL_MODE, 0)
         else if sig = 273 then
           (if graph_search then DEFAULT_GRAPH_ORDER else DEFAULT_ORDER, SINGLE, 0)
         else
           (let (good0, good1, n0) =
                  (if sig = 1 then (OPS, OSP, 1::nat)
                   else if sig = 16 then (POS, PSO, 1)
                   else if sig = 17 then (OPS, POS, 2)
                   else if sig = 256 then (SPO, SOP, 1)
                   else if sig = 257 then (SOP, OSP, 2)
                   else (SPO, PSO, 2));
                (has0, good0, n1) = sord_has_index sord good0 n0 graph_search
            in if has0 then (good0, RANGE, n1)
               else
                 (let (has1, good1, n2) = sord_has_index sord good1 n1 graph_search
                  in if has1 then (good1, RANGE, n2)
                     else
                       (let (m, good0, good1, n3) =
                              (if sig = 17 then (FILTER_RANGE, OSP, PSO, 1)
                               else if sig = 257 then (FILTER_RANGE, SPO, OPS, 1)
                               else if sig = 272 then (FILTER_RANGE, SOP, POS, 1)
                               else (RANGE, good0, good1, n2));
                            final = (\<lambda>n. if graph_search then (DEFAULT_GRAPH_ORDER, FILTER_RANGE, 1)
                                          else (DEFAULT_ORDER, FILTER_ALL, n))
                        in if m = FILTER_RANGE then
                             (let (has0, good0, n4) = sord_has_index sord good0 n3 graph_search
                              in if has0 then (good0, FILTER_RANGE, n4)
                                 else
                                   (let (has1, good1, n5) = sord_has_index sord good1 n4 graph_search
                                    in if has1 then (good1, FILTER_RANGE, n5) else final n5))
                           else final n3))))"

text \<open>The loop of \<open>sord_new\<close> over the six triple orders, then the default index.\<close>

fun sord_new_loop :: "nat \<Rightarrow> bool \<Rightarrow> (nat \<Rightarrow> GSequence option) \<Rightarrow> nat list \<Rightarrow> (nat \<Rightarrow> GSequence option)" where
  "sord_new_loop imask graphs idx [] = idx"
| "sord_new_loop imask graphs idx (i # is) =
     sord_new_loop imask graphs
       (if bit imask i
        then idx(i := Some [], i + NUM_ORDERS div 2 := (if graphs then Some [] else None))
        else idx(i := None, i + NUM_ORDERS div 2 := None)) is"

definition sord_new :: "nat \<Rightarrow> bool \<Rightarrow> SordModel" where
  "sord_new imask graphs =
     (let idx = sord_new_loop imask graphs (\<lambda>i. None) [0 ..< NUM_ORDERS div 2]
      in \<lparr>indices = (if idx DEFAULT_ORDER = None then idx(DEFAULT_ORDER := Some []) else idx),
          n_quads = 0\<rparr>)"

section \<open>Reference counts and the lifetime of nodes\<close>

definition literal_key :: "SordNode \<Rightarrow> string \<times> nat \<times> SordNodeRef" where
  "literal_key n = (buf n, lang n, datatype_node n)"

text \<open>
  \<open>sord_node_free\<close> and \<open>sord_node_free_internal\<close> call each other (a literal releases
  its datatype). The recursion is written once, with the body of
  \<open>sord_node_free_internal\<close> in place; \<open>sord_node_free_internal\<close> itself follows, and
  \<open>sord_node_free_eq\<close> states \<open>sord_node_free\<close> the way the source writes it. A failed
  assertion, a read through a dangling pointer and a recursion that does not end are
  \<open>None\<close>.
\<close>

partial_function (option) sord_node_free :: "SordWorld \<Rightarrow> SordNodeRef \<Rightarrow> SordWorld option" where
  "sord_node_free w node =
     (if node = NULL then Some w
      else case nodes w node of
          None \<Rightarrow> None
        | Some n \<Rightarrow>
            if \<not> 0 < refs n then None
            else if refs n - 1 \<noteq> 0
            then Some (w\<lparr>nodes := (nodes w)(node \<mapsto> n\<lparr>refs := refs n - 1\<rparr>)\<rparr>)
            else if node_type n = SORD_LITERAL then
              (if literals w (literal_key n) = None
               then Some (w\<lparr>nodes := (nodes w)(node \<mapsto> n\<lparr>refs := refs n - 1\<rparr>)\<rparr>)
               else Option.bind
                 (sord_node_free
                    (w\<lparr>nodes := (nodes w)(node \<mapsto> n\<lparr>refs := refs n - 1\<rparr>),
                       literals := (literals w)(literal_key n := None)\<rparr>)
                    (datatype_node n))
                 (\<lambda>w'. Some (w'\<lparr>nodes := (nodes w')(node := None)\<rparr>)))
            else
              (if names w (buf n) = None
               then Some (w\<lparr>nodes := (nodes w)(node \<mapsto> n\<lparr>refs := refs n - 1\<rparr>)\<rparr>)
               else Some (w\<lparr>nodes := (nodes w)(node := None),
                            names := (names w)(buf n := None)\<rparr>)))"

declare sord_node_free.simps [code]

definition sord_node_free_internal :: "SordWorld \<Rightarrow> SordNodeRef \<Rightarrow> SordWorld option" where
  "sord_node_free_internal w node =
     (case nodes w node of
        None \<Rightarrow> None
      | Some n \<Rightarrow>
          if refs n \<noteq> 0 then None
          else if node_type n = SORD_LITERAL then
            (if literals w (literal_key n) = None then Some w
             else Option.bind
               (sord_node_free (w\<lparr>literals := (literals w)(literal_key n := None)\<rparr>) (datatype_node n))
               (\<lambda>w'. Some (w'\<lparr>nodes := (nodes w')(node := None)\<rparr>)))
          else
            (if names w (buf n) = None then Some w
             else Some (w\<lparr>names := (names w)(buf n := None), nodes := (nodes w)(node := None)\<rparr>)))"

lemma sord_node_free_eq:
  "sord_node_free w node =
     (if node = NULL then Some w
      else case nodes w node of
          None \<Rightarrow> None
        | Some n \<Rightarrow>
            if \<not> 0 < refs n then None
            else (let w' = w\<lparr>nodes := (nodes w)(node \<mapsto> n\<lparr>refs := refs n - 1\<rparr>)\<rparr>
                  in if refs n - 1 = 0 then sord_node_free_internal w' node else Some w'))"
  by (subst sord_node_free.simps)
     (auto simp: sord_node_free_internal_def literal_key_def Let_def split: option.splits)

definition sord_add_quad_ref :: "SordWorld \<Rightarrow> SordNodeRef \<Rightarrow> nat \<Rightarrow> SordWorld option" where
  "sord_add_quad_ref w node i =
     (if node \<noteq> NULL then
        (case nodes w node of
           None \<Rightarrow> None
         | Some n \<Rightarrow>
             if \<not> 0 < refs n then None
             else Some (w\<lparr>nodes := (nodes w)(node \<mapsto>
                    n\<lparr>refs := refs n + 1,
                      refs_as_obj := (if i = TUP_O then refs_as_obj n + 1 else refs_as_obj n)\<rparr>)\<rparr>))
      else Some w)"

definition sord_drop_quad_ref :: "SordWorld \<Rightarrow> SordNodeRef \<Rightarrow> nat \<Rightarrow> SordWorld option" where
  "sord_drop_quad_ref w node i =
     (if node = NULL then Some w
      else case nodes w node of
          None \<Rightarrow> None
        | Some n \<Rightarrow>
            if \<not> 0 < refs n then None
            else if i = TUP_O \<and> \<not> 0 < refs_as_obj n then None
            else
              (let n' = n\<lparr>refs := refs n - 1,
                          refs_as_obj := (if i = TUP_O then refs_as_obj n - 1 else refs_as_obj n)\<rparr>;
                   w' = w\<lparr>nodes := (nodes w)(node \<mapsto> n')\<rparr>
               in if refs n' = 0 then sord_node_free_internal w' node else Some w'))"

definition sord_num_quads :: "SordModel \<Rightarrow> nat" where
  "sord_num_quads sord = n_quads sord"

definition sord_num_nodes :: "SordWorld \<Rightarrow> nat" where
  "sord_num_nodes world = n_nodes world"

section \<open>Searching an index\<close>

text \<open>A null iterator is \<open>None\<close>; the outer \<open>option\<close> is the failure of the program.\<close>

definition sord_begin :: "SordModel \<Rightarrow> SordIter option option" where
  "sord_begin sord =
     (if sord_num_quads sord = 0 then Some None
      else case indices sord DEFAULT_ORDER of
          None \<Rightarrow> None
        | Some db \<Rightarrow>
            map_option Some (sord_iter_new db 0 (NULL, NULL, NULL, NULL) DEFAULT_ORDER ALL_MODE 0))"

definition index_search :: "SordWorld \<Rightarrow> GSequence \<Rightarrow> SordQuad \<Rightarrow> nat option" where
  "index_search w db search_key = g_sequence_search (sord_quad_compare w) db search_key"

text \<open>The final loop of \<open>index_lower_bound_iter\<close>.\<close>

function index_lower_bound_loop :: "GSequence \<Rightarrow> SordQuad \<Rightarrow> nat \<Rightarrow> nat option" where
  "index_lower_bound_loop db search_key i =
     (if \<not> g_sequence_iter_is_begin i then
        (case g_sequence_get db i of
           None \<Rightarrow> None
         | Some e \<Rightarrow>
             if sord_quad_match_inline search_key e then
               (case g_sequence_get db (g_sequence_iter_prev i) of
                  None \<Rightarrow> None
                | Some p \<Rightarrow>
                    if sord_quad_match_inline search_key p
                    then index_lower_bound_loop db search_key (g_sequence_iter_prev i)
                    else Some i)
             else Some i)
      else Some i)"
  by pat_completeness auto
termination
  by (relation "measure (\<lambda>(db, search_key, i). i)")
     (auto simp: g_sequence_iter_is_begin_def g_sequence_iter_prev_def)

declare index_lower_bound_loop.simps [simp del]

text \<open>
  \<open>index_lower_bound_iter\<close>. Its assertion before the loop holds on both paths that
  reach it (the element at \<open>i\<close> has just been tested), so it is not written.
\<close>

definition index_lower_bound_iter :: "GSequence \<Rightarrow> nat \<Rightarrow> SordQuad \<Rightarrow> nat option" where
  "index_lower_bound_iter db i0 search_key =
     (if g_sequence_iter_is_begin i0 then Some i0
      else
        (let i = (if g_sequence_iter_is_end db i0 then g_sequence_iter_prev i0 else i0)
         in case g_sequence_get db i of
              None \<Rightarrow> None
            | Some e \<Rightarrow>
                if \<not> sord_quad_match_inline search_key e then
                  (case g_sequence_get db (g_sequence_iter_prev i) of
                     None \<Rightarrow> None
                   | Some p \<Rightarrow>
                       if \<not> sord_quad_match_inline search_key p then Some i
                       else index_lower_bound_loop db search_key (g_sequence_iter_prev i))
                else index_lower_bound_loop db search_key i))"

definition index_lower_bound :: "SordWorld \<Rightarrow> GSequence \<Rightarrow> SordQuad \<Rightarrow> nat option" where
  "index_lower_bound w db search_key =
     (case g_sequence_search (sord_quad_compare w) db search_key of
        None \<Rightarrow> None
      | Some i \<Rightarrow> index_lower_bound_iter db i search_key)"

text \<open>
  \<open>sord_find\<close>. Searching an index that is a null pointer is a failure of the program.
\<close>

definition sord_find :: "SordWorld \<Rightarrow> SordModel \<Rightarrow> SordQuad \<Rightarrow> SordIter option option" where
  "sord_find w sord p =
     (if tup_get p 0 = NULL \<and> tup_get p 1 = NULL \<and> tup_get p 2 = NULL \<and> tup_get p 3 = NULL
      then sord_begin sord
      else
        (let (index_order, mode0, prefix_len) = sord_best_index sord p;
             search_key = permute (orderings index_order) p;
             m = (if tup_get search_key 0 \<noteq> NULL \<and> tup_get search_key 1 \<noteq> NULL
                     \<and> tup_get search_key 2 \<noteq> NULL \<and> tup_get search_key 3 \<noteq> NULL
                  then SINGLE else mode0)
         in case indices sord index_order of
              None \<Rightarrow> None
            | Some db \<Rightarrow>
                (case index_lower_bound w db search_key of
                   None \<Rightarrow> None
                 | Some c \<Rightarrow>
                     if g_sequence_iter_is_end db c then Some None
                     else (case g_sequence_get db c of
                         None \<Rightarrow> None
                       | Some key \<Rightarrow>
                           if (m = RANGE \<or> m = SINGLE) \<and> \<not> sord_quad_match_inline search_key key
                           then Some None
                           else map_option Some (sord_iter_new db c p index_order m prefix_len)))))"


section \<open>Interning nodes\<close>

text \<open>
  The functions that return a node return it with the world they leave. An allocation
  that fails is not modelled.
\<close>

text \<open>
  A \<open>size_t\<close> counter that is incremented wraps at \<open>2^64\<close> (64 bits on the platforms the
  library is built for).
\<close>

definition SIZE_MAX :: nat where
  "SIZE_MAX = 2 ^ 64 - 1"

definition size_t_of :: "nat \<Rightarrow> nat" where
  "size_t_of n = nat (int n mod 18446744073709551616)"

lemma size_t_of_eq: "size_t_of n = n mod 18446744073709551616"
  by (simp add: size_t_of_def nat_mod_as_int)

lemma size_t_of_small: "n \<le> SIZE_MAX \<Longrightarrow> size_t_of n = n"
  by (simp add: size_t_of_eq SIZE_MAX_def)

lemma size_t_of_wrap: "size_t_of (SIZE_MAX + 1) = 0"
  by (simp add: size_t_of_eq SIZE_MAX_def)

definition sord_lookup_name :: "SordWorld \<Rightarrow> string \<Rightarrow> nat \<Rightarrow> SordNodeRef" where
  "sord_lookup_name world str str_len = (case names world str of None \<Rightarrow> NULL | Some node \<Rightarrow> node)"

definition sord_new_node :: "SordWorld \<Rightarrow> SordNodeType \<Rightarrow> string \<Rightarrow> nat \<Rightarrow> nat \<Rightarrow> SordNodeRef \<times> SordWorld" where
  "sord_new_node world t data nb fl =
     (next_node world,
      world\<lparr>nodes := (nodes world)(next_node world \<mapsto>
               \<lparr>node_type = t, buf = data, n_bytes = nb, refs = 1, refs_as_obj = 0,
                datatype_node = NULL, lang = NULL, flags = fl\<rparr>),
            next_node := Suc (next_node world)\<rparr>)"

text \<open>
  \<open>sord_intern_lang\<close>. Its argument is the caller's string: the pointer and the tag it
  points to, \<open>None\<close> for a null pointer. On a hit it returns the interned pointer; on a
  miss it stores a copy of the tag, at a new address, and returns the caller's pointer
  (which, pointing to a tag that is not interned, is not the address of an interned
  copy).
\<close>

definition sord_intern_lang :: "SordWorld \<Rightarrow> (nat \<times> string) option \<Rightarrow> nat \<times> SordWorld" where
  "sord_intern_lang world l =
     (case l of
        None \<Rightarrow> (NULL, world)
      | Some (p, tag) \<Rightarrow>
          (case langs world tag of
             Some ilang \<Rightarrow> (ilang, world)
           | None \<Rightarrow>
               (p, world\<lparr>tags := (tags world)(next_node world \<mapsto> tag),
                         langs := (langs world)(tag \<mapsto> next_node world),
                         next_node := Suc (next_node world)\<rparr>)))"

definition sord_node_copy :: "SordWorld \<Rightarrow> SordNodeRef \<Rightarrow> (SordNodeRef \<times> SordWorld) option" where
  "sord_node_copy world node =
     (if node \<noteq> NULL then
        (case nodes world node of
           None \<Rightarrow> None
         | Some n \<Rightarrow> Some (node, world\<lparr>nodes := (nodes world)(node \<mapsto> n\<lparr>refs := refs n + 1\<rparr>)\<rparr>))
      else Some (node, world))"

definition sord_new_literal_node ::
  "SordWorld \<Rightarrow> SordNodeRef \<Rightarrow> string \<Rightarrow> nat \<Rightarrow> nat \<Rightarrow> (nat \<times> string) option \<Rightarrow> (SordNodeRef \<times> SordWorld) option" where
  "sord_new_literal_node world dt str str_len fl l =
     (let (node, w1) = sord_new_node world SORD_LITERAL str (str_len + 1) fl
      in case sord_node_copy w1 dt of
           None \<Rightarrow> None
         | Some (dt', w2) \<Rightarrow>
             (let (il, w3) = sord_intern_lang w2 l
              in case nodes w3 node of
                   None \<Rightarrow> None
                 | Some n \<Rightarrow>
                     Some (node, w3\<lparr>nodes := (nodes w3)(node \<mapsto> n\<lparr>datatype_node := dt', lang := il\<rparr>)\<rparr>)))"

definition sord_lookup_literal ::
  "SordWorld \<Rightarrow> SordNodeRef \<Rightarrow> string \<Rightarrow> nat \<Rightarrow> (nat \<times> string) option \<Rightarrow> SordNodeRef \<times> SordWorld" where
  "sord_lookup_literal world t str str_len l =
     (let (il, w1) = sord_intern_lang world l
      in (case literals w1 (str, il, t) of None \<Rightarrow> NULL | Some node \<Rightarrow> node, w1))"

definition sord_add_node :: "SordWorld \<Rightarrow> SordNodeRef \<Rightarrow> SordWorld" where
  "sord_add_node world node = world\<lparr>n_nodes := size_t_of (n_nodes world + 1)\<rparr>"

definition sord_new_uri_counted :: "SordWorld \<Rightarrow> string \<Rightarrow> nat \<Rightarrow> (SordNodeRef \<times> SordWorld) option" where
  "sord_new_uri_counted world str str_len =
     (let node = sord_lookup_name world str str_len
      in if node \<noteq> NULL then
           (case nodes world node of
              None \<Rightarrow> None
            | Some n \<Rightarrow> Some (node, world\<lparr>nodes := (nodes world)(node \<mapsto> n\<lparr>refs := refs n + 1\<rparr>)\<rparr>))
         else
           (let (node, w1) = sord_new_node world SORD_URI str (str_len + 1) 0
            in if names w1 str \<noteq> None then None
               else Some (node, sord_add_node (w1\<lparr>names := (names w1)(str \<mapsto> node)\<rparr>) node)))"

definition sord_new_uri :: "SordWorld \<Rightarrow> string \<Rightarrow> (SordNodeRef \<times> SordWorld) option" where
  "sord_new_uri world str = sord_new_uri_counted world str (length str)"

definition sord_new_blank_counted :: "SordWorld \<Rightarrow> string \<Rightarrow> nat \<Rightarrow> (SordNodeRef \<times> SordWorld) option" where
  "sord_new_blank_counted world str str_len =
     (let node = sord_lookup_name world str str_len
      in if node \<noteq> NULL then
           (case nodes world node of
              None \<Rightarrow> None
            | Some n \<Rightarrow> Some (node, world\<lparr>nodes := (nodes world)(node \<mapsto> n\<lparr>refs := refs n + 1\<rparr>)\<rparr>))
         else
           (let (node, w1) = sord_new_node world SORD_BLANK str (str_len + 1) 0
            in Some (node, sord_add_node (w1\<lparr>names := (names w1)(str \<mapsto> node)\<rparr>) node)))"

definition sord_new_blank :: "SordWorld \<Rightarrow> string \<Rightarrow> (SordNodeRef \<times> SordWorld) option" where
  "sord_new_blank world str = sord_new_blank_counted world str (length str)"

definition sord_new_literal_counted ::
  "SordWorld \<Rightarrow> SordNodeRef \<Rightarrow> string \<Rightarrow> nat \<Rightarrow> nat \<Rightarrow> (nat \<times> string) option \<Rightarrow> (SordNodeRef \<times> SordWorld) option" where
  "sord_new_literal_counted world dt str str_len fl l =
     (let (node, w1) = sord_lookup_literal world dt str str_len l
      in if node \<noteq> NULL then
           (case nodes w1 node of
              None \<Rightarrow> None
            | Some n \<Rightarrow> Some (node, w1\<lparr>nodes := (nodes w1)(node \<mapsto> n\<lparr>refs := refs n + 1\<rparr>)\<rparr>))
         else
           (case sord_new_literal_node w1 dt str str_len fl l of
              None \<Rightarrow> None
            | Some (node, w2) \<Rightarrow>
                (case nodes w2 node of
                   None \<Rightarrow> None
                 | Some n \<Rightarrow>
                     (let w3 = sord_add_node (w2\<lparr>literals := (literals w2)(literal_key n \<mapsto> node)\<rparr>) node
                      in if refs n = 1 then Some (node, w3) else None))))"

section \<open>Adding and removing quads\<close>

definition sord_add_to_index :: "SordWorld \<Rightarrow> SordModel \<Rightarrow> SordQuad \<Rightarrow> nat \<Rightarrow> (bool \<times> SordModel) option" where
  "sord_add_to_index w sord tup ord =
     (case indices sord ord of
        None \<Rightarrow> None
      | Some db \<Rightarrow>
          (let key = permute (orderings ord) tup
           in case index_search w db key of
                None \<Rightarrow> None
              | Some c \<Rightarrow>
                  (case index_lower_bound_iter db c key of
                     None \<Rightarrow> None
                   | Some match \<Rightarrow>
                       (case (if \<not> g_sequence_iter_is_end db match
                              then Option.bind (g_sequence_get db match)
                                     (\<lambda>e. map_option (\<lambda>r. r = 0) (sord_quad_compare w e key))
                              else Some False) of
                          None \<Rightarrow> None
                        | Some True \<Rightarrow> Some (False, sord)
                        | Some False \<Rightarrow>
                            Some (True, sord\<lparr>indices := (indices sord)
                                    (ord := Some (g_sequence_insert_before db c key))\<rparr>)))))"

text \<open>
  The first loop of \<open>sord_add\<close>: false when an index reports the quad as stored, which
  the assertion allows at the first index only.
\<close>

fun sord_add_loop :: "SordWorld \<Rightarrow> SordModel \<Rightarrow> SordQuad \<Rightarrow> nat list \<Rightarrow> (bool \<times> SordModel) option" where
  "sord_add_loop w sord tup [] = Some (True, sord)"
| "sord_add_loop w sord tup (i # is) =
     (if indices sord i \<noteq> None then
        (case sord_add_to_index w sord tup i of
           None \<Rightarrow> None
         | Some (ok, sord') \<Rightarrow>
             if \<not> ok then (if i = 0 then Some (False, sord') else None)
             else sord_add_loop w sord' tup is)
      else sord_add_loop w sord tup is)"

fun sord_add_quad_refs :: "SordWorld \<Rightarrow> SordQuad \<Rightarrow> nat list \<Rightarrow> SordWorld option" where
  "sord_add_quad_refs w tup [] = Some w"
| "sord_add_quad_refs w tup (i # is) =
     (case sord_add_quad_ref w (tup_get tup i) i of
        None \<Rightarrow> None
      | Some w' \<Rightarrow> sord_add_quad_refs w' tup is)"

definition sord_add :: "SordWorld \<Rightarrow> SordModel \<Rightarrow> SordQuad \<Rightarrow> (bool \<times> SordWorld \<times> SordModel) option" where
  "sord_add w sord tup =
     (if tup_get tup 0 = NULL \<or> tup_get tup 1 = NULL \<or> tup_get tup 2 = NULL
      then Some (False, w, sord)
      else case sord_add_loop w sord tup [0 ..< NUM_ORDERS] of
          None \<Rightarrow> None
        | Some (ok, sord1) \<Rightarrow>
            if \<not> ok then Some (False, w, sord1)
            else (case sord_add_quad_refs w tup [0 ..< TUP_LEN] of
                None \<Rightarrow> None
              | Some w' \<Rightarrow>
                  (let sord2 = sord1\<lparr>n_quads := size_t_of (n_quads sord1 + 1)\<rparr>
                   in case indices sord2 SPO of
                        None \<Rightarrow> None
                      | Some db \<Rightarrow> if n_quads sord2 = length db then Some (True, w', sord2) else None)))"

text \<open>
  The first loop of \<open>sord_remove\<close>: false when it returns early, which the assertion
  allows at the first index only.
\<close>

fun sord_remove_loop :: "SordWorld \<Rightarrow> SordModel \<Rightarrow> SordQuad \<Rightarrow> nat list \<Rightarrow> (bool \<times> SordModel) option" where
  "sord_remove_loop w sord tup [] = Some (True, sord)"
| "sord_remove_loop w sord tup (i # is) =
     (case indices sord i of
        None \<Rightarrow> sord_remove_loop w sord tup is
      | Some db \<Rightarrow>
          (case index_search w db (permute (orderings i) tup) of
             None \<Rightarrow> None
           | Some c \<Rightarrow>
               if \<not> g_sequence_iter_is_end db c
               then sord_remove_loop w
                      (sord\<lparr>indices := (indices sord)(i := Some (g_sequence_remove db c))\<rparr>) tup is
               else if i = 0 then Some (False, sord) else None))"

fun sord_drop_quad_refs :: "SordWorld \<Rightarrow> SordQuad \<Rightarrow> nat list \<Rightarrow> SordWorld option" where
  "sord_drop_quad_refs w tup [] = Some w"
| "sord_drop_quad_refs w tup (i # is) =
     (case sord_drop_quad_ref w (tup_get tup i) i of
        None \<Rightarrow> None
      | Some w' \<Rightarrow> sord_drop_quad_refs w' tup is)"

text \<open>\<open>--sord->n_quads\<close> on a \<open>size_t\<close> wraps at zero.\<close>

definition sord_remove :: "SordWorld \<Rightarrow> SordModel \<Rightarrow> SordQuad \<Rightarrow> (SordWorld \<times> SordModel) option" where
  "sord_remove w sord tup =
     (case sord_remove_loop w sord tup [0 ..< NUM_ORDERS] of
        None \<Rightarrow> None
      | Some (go, sord1) \<Rightarrow>
          if \<not> go then Some (w, sord1)
          else (case sord_drop_quad_refs w tup [0 ..< TUP_LEN] of
              None \<Rightarrow> None
            | Some w' \<Rightarrow>
                Some (w', sord1\<lparr>n_quads := (if n_quads sord1 = 0 then SIZE_MAX else n_quads sord1 - 1)\<rparr>)))"


section \<open>Releasing a model\<close>

text \<open>
  The loop of \<open>sord_free\<close> over the iterator \<open>sord_begin\<close> returns: the quad under the
  cursor gives up its four references, then the iterator steps.
\<close>

function sord_free_loop :: "SordWorld \<Rightarrow> GSequence \<Rightarrow> SordIter \<Rightarrow> SordWorld option" where
  "sord_free_loop w db iter =
     (if at_end iter then Some w
      else case sord_iter_get db iter of
          None \<Rightarrow> None
        | Some tup \<Rightarrow>
            (case sord_drop_quad_refs w tup [0 ..< TUP_LEN] of
               None \<Rightarrow> None
             | Some w' \<Rightarrow>
                 (case sord_iter_next db iter of
                    None \<Rightarrow> None
                  | Some (e, iter') \<Rightarrow> sord_free_loop w' db iter')))"
  by pat_completeness auto
termination
proof (relation "measure (\<lambda>(w, db, iter). length db - cur iter)", goal_cases)
  case 1
  show ?case by simp
next
  case (2 w db iter tup w' x e iter')
  then have lt: "cur iter < length db"
    by (auto simp: sord_iter_get_def g_sequence_get_def split: if_splits)
  with 2 have "cur iter < cur iter'"
    using sord_iter_next_cur by metis
  with lt show ?case by simp
qed

declare sord_free_loop.simps [simp del]

definition sord_free :: "SordWorld \<Rightarrow> SordModel \<Rightarrow> SordWorld option" where
  "sord_free w sord =
     (case sord_begin sord of
        None \<Rightarrow> None
      | Some None \<Rightarrow> Some w
      | Some (Some iter) \<Rightarrow>
          (case indices sord DEFAULT_ORDER of
             None \<Rightarrow> None
           | Some db \<Rightarrow> sord_free_loop w db iter))"

section \<open>What an iterator yields\<close>

text \<open>
  The loop a caller runs over an iterator, as \<open>sord_free\<close> does:
  \<open>for (; !sord_iter_end(i); sord_iter_next(i)) { sord_iter_get(i, tup); ... }\<close>,
  collecting the quads it gets.
\<close>

function sord_iter_collect :: "GSequence \<Rightarrow> SordIter \<Rightarrow> SordQuad list option" where
  "sord_iter_collect db iter =
     (if at_end iter then Some []
      else case sord_iter_get db iter of
          None \<Rightarrow> None
        | Some tup \<Rightarrow>
            (case sord_iter_next db iter of
               None \<Rightarrow> None
             | Some (e, iter') \<Rightarrow> map_option ((#) tup) (sord_iter_collect db iter')))"
  by pat_completeness auto
termination
proof (relation "measure (\<lambda>(db, iter). length db - cur iter)", goal_cases)
  case 1
  show ?case by simp
next
  case (2 db iter tup x e iter')
  then have lt: "cur iter < length db"
    by (auto simp: sord_iter_get_def g_sequence_get_def split: if_splits)
  with 2 have "cur iter < cur iter'"
    using sord_iter_next_cur by metis
  with lt show ?case by simp
qed

declare sord_iter_collect.simps [simp del]

text \<open>
  The quads \<open>sord_find\<close> yields: none for the null iterator, else those of the loop over
  the index the iterator walks.
\<close>

definition sord_find_results :: "SordWorld \<Rightarrow> SordModel \<Rightarrow> SordQuad \<Rightarrow> SordQuad list option" where
  "sord_find_results w sord p =
     (case sord_find w sord p of
        None \<Rightarrow> None
      | Some None \<Rightarrow> Some []
      | Some (Some iter) \<Rightarrow>
          (case indices sord (order iter) of
             None \<Rightarrow> None
           | Some db \<Rightarrow> sord_iter_collect db iter))"

section \<open>Sequences of calls\<close>

text \<open>
  The calls of the public interface that change a world or a model. A program holds a
  world and the models it has made; a model is named by its place in the list, and a
  freed model leaves \<open>None\<close> there. A call that fails ends the program.
\<close>

datatype api_call =
    New_uri string
  | New_blank string
  | New_literal SordNodeRef string nat nat "(nat \<times> string) option"
  | Node_copy SordNodeRef
  | Node_free SordNodeRef
  | Model_new nat bool
  | Model_add nat SordQuad
  | Model_remove nat SordQuad
  | Model_free nat

record api_state =
  world :: SordWorld
  models :: "SordModel option list"

definition model_at :: "api_state \<Rightarrow> nat \<Rightarrow> SordModel option" where
  "model_at st k = (if k < length (models st) then models st ! k else None)"

fun api_step :: "api_state \<Rightarrow> api_call \<Rightarrow> api_state option" where
  "api_step st (New_uri str) =
     map_option (\<lambda>(node, w). st\<lparr>world := w\<rparr>) (sord_new_uri (world st) str)"
| "api_step st (New_blank str) =
     map_option (\<lambda>(node, w). st\<lparr>world := w\<rparr>) (sord_new_blank (world st) str)"
| "api_step st (New_literal dt str str_len fl l) =
     map_option (\<lambda>(node, w). st\<lparr>world := w\<rparr>)
       (sord_new_literal_counted (world st) dt str str_len fl l)"
| "api_step st (Node_copy node) =
     map_option (\<lambda>(node, w). st\<lparr>world := w\<rparr>) (sord_node_copy (world st) node)"
| "api_step st (Node_free node) =
     map_option (\<lambda>w. st\<lparr>world := w\<rparr>) (sord_node_free (world st) node)"
| "api_step st (Model_new imask graphs) =
     Some (st\<lparr>models := models st @ [Some (sord_new imask graphs)]\<rparr>)"
| "api_step st (Model_add k tup) =
     (case model_at st k of
        None \<Rightarrow> None
      | Some sord \<Rightarrow>
          map_option (\<lambda>(r, w, sord'). st\<lparr>world := w, models := (models st)[k := Some sord']\<rparr>)
            (sord_add (world st) sord tup))"
| "api_step st (Model_remove k tup) =
     (case model_at st k of
        None \<Rightarrow> None
      | Some sord \<Rightarrow>
          map_option (\<lambda>(w, sord'). st\<lparr>world := w, models := (models st)[k := Some sord']\<rparr>)
            (sord_remove (world st) sord tup))"
| "api_step st (Model_free k) =
     (case model_at st k of
        None \<Rightarrow> None
      | Some sord \<Rightarrow>
          map_option (\<lambda>w. st\<lparr>world := w, models := (models st)[k := None]\<rparr>)
            (sord_free (world st) sord))"

fun api_run :: "api_state \<Rightarrow> api_call list \<Rightarrow> api_state option" where
  "api_run st [] = Some st"
| "api_run st (c # cs) = (case api_step st c of None \<Rightarrow> None | Some st' \<Rightarrow> api_run st' cs)"

text \<open>A call interns a fresh node when it is an interning call whose lookup finds nothing.\<close>

fun interns_fresh :: "SordWorld \<Rightarrow> api_call \<Rightarrow> bool" where
  "interns_fresh w (New_uri str) = (sord_lookup_name w str (length str) = NULL)"
| "interns_fresh w (New_blank str) = (sord_lookup_name w str (length str) = NULL)"
| "interns_fresh w (New_literal dt str str_len fl l) =
     (fst (sord_lookup_literal w dt str str_len l) = NULL)"
| "interns_fresh w c = False"

text \<open>The number of calls of a sequence that intern a fresh node, as far as the sequence runs.\<close>

fun fresh_calls :: "api_state \<Rightarrow> api_call list \<Rightarrow> nat" where
  "fresh_calls st [] = 0"
| "fresh_calls st (c # cs) =
     (if interns_fresh (world st) c then 1 else 0)
     + (case api_step st c of None \<Rightarrow> 0 | Some st' \<Rightarrow> fresh_calls st' cs)"

section \<open>Conditions on an index and a key\<close>

definition nodes_of :: "SordQuad \<Rightarrow> SordNodeRef list" where
  "nodes_of q = map (tup_get q) [0 ..< TUP_LEN]"

text \<open>
  The comparator orders a list of pointers, with the null pointer as the minimum: the
  comparison of any two of them returns; it is 0 for the same pointer only (what
  interning gives); it is not negative against the null pointer; and it is positive
  just when the comparison with the arguments exchanged is negative. The last two fail
  where the narrowing of a pointer difference to \<open>int\<close> turns its sign.
\<close>

definition compare_orders :: "SordWorld \<Rightarrow> SordNodeRef list \<Rightarrow> bool" where
  "compare_orders w ns =
     (\<forall>a \<in> set ns. \<forall>b \<in> set ns.
        case sord_id_compare w a b of
          None \<Rightarrow> False
        | Some c \<Rightarrow> (c = 0 \<longrightarrow> a = b) \<and> (b = NULL \<longrightarrow> 0 \<le> c)
            \<and> (case sord_id_compare w b a of None \<Rightarrow> False | Some d \<Rightarrow> (0 < c) = (d < 0)))"

text \<open>An index is sorted when no entry compares greater than a later one.\<close>

definition index_sorted :: "SordWorld \<Rightarrow> GSequence \<Rightarrow> bool" where
  "index_sorted w db =
     sorted_wrt (\<lambda>x y. case sord_quad_compare w x y of None \<Rightarrow> False | Some c \<Rightarrow> c \<le> 0) db"

text \<open>The wildcards of a key are trailing: behind a null position every position is null.\<close>

definition prefix_key :: "SordQuad \<Rightarrow> bool" where
  "prefix_key key =
     ((tup_get key 1 \<noteq> NULL \<longrightarrow> tup_get key 0 \<noteq> NULL)
      \<and> (tup_get key 2 \<noteq> NULL \<longrightarrow> tup_get key 1 \<noteq> NULL)
      \<and> (tup_get key 3 \<noteq> NULL \<longrightarrow> tup_get key 2 \<noteq> NULL))"

text \<open>An entry has a node at every position the key binds.\<close>

definition bound_where :: "SordQuad \<Rightarrow> SordQuad \<Rightarrow> bool" where
  "bound_where key e =
     list_all (\<lambda>q. tup_get key q \<noteq> NULL \<longrightarrow> tup_get e q \<noteq> NULL) [0 ..< TUP_LEN]"

text \<open>Two keys agree on their first \<open>n\<close> positions.\<close>

definition agree :: "nat \<Rightarrow> SordQuad \<Rightarrow> SordQuad \<Rightarrow> bool" where
  "agree n x y = list_all (\<lambda>q. tup_get x q = tup_get y q) [0 ..< n]"

text \<open>A quad has a subject, a predicate and an object.\<close>

definition bound3 :: "SordQuad \<Rightarrow> bool" where
  "bound3 e = (tup_get e 0 \<noteq> NULL \<and> tup_get e 1 \<noteq> NULL \<and> tup_get e 2 \<noteq> NULL)"

text \<open>
  What the modes of an iterator expect of its pattern (in the order of its index) and
  its prefix length, where the pattern has a null graph: no bound node for \<open>ALL\<close>, the
  three nodes of a triple for \<open>SINGLE\<close>, exactly the leading \<open>n_prefix\<close> nodes for
  \<open>RANGE\<close>, at least those for \<open>FILTER_RANGE\<close>.
\<close>

definition mode_ok :: "SordIter \<Rightarrow> bool" where
  "mode_ok it =
     (skip_graphs it \<and> tup_get (pat it) 3 = NULL
      \<and> (mode it = ALL_MODE \<longrightarrow> pat it = (NULL, NULL, NULL, NULL))
      \<and> (mode it = SINGLE \<longrightarrow> bound3 (pat it))
      \<and> (mode it = RANGE \<longrightarrow> n_prefix it \<le> 3
            \<and> list_all (\<lambda>q. (q < n_prefix it) = (tup_get (pat it) q \<noteq> NULL)) [0 ..< TUP_LEN])
      \<and> (mode it = FILTER_RANGE \<longrightarrow> n_prefix it \<le> 3
            \<and> list_all (\<lambda>q. tup_get (pat it) q \<noteq> NULL) [0 ..< n_prefix it]))"

text \<open>
  The quads of a model are the keys of its default index, whose order leaves a quad as
  it is.
\<close>

definition quads :: "SordModel \<Rightarrow> SordQuad list" where
  "quads sord = (case indices sord DEFAULT_ORDER of None \<Rightarrow> [] | Some db \<Rightarrow> db)"

text \<open>A pattern matches a quad: each of its four nodes is null or the node of the quad.\<close>

definition pattern_match :: "SordQuad \<Rightarrow> SordQuad \<Rightarrow> bool" where
  "pattern_match p q =
     list_all (\<lambda>i. tup_get p i = NULL \<or> tup_get p i = tup_get q i) [0 ..< TUP_LEN]"

definition triple_of :: "SordQuad \<Rightarrow> SordNodeRef \<times> SordNodeRef \<times> SordNodeRef" where
  "triple_of q = (tup_get q TUP_S, tup_get q TUP_P, tup_get q TUP_O)"

text \<open>
  The state of a model that \<open>sord_find\<close> relies on for a pattern without a graph: the
  default index is there, \<open>n_quads\<close> counts its entries, every quad has a subject, a
  predicate and an object, and every index of a triple order is sorted and holds the
  keys of the same quads.
\<close>

definition model_ok :: "SordWorld \<Rightarrow> SordModel \<Rightarrow> bool" where
  "model_ok w sord =
     (indices sord DEFAULT_ORDER \<noteq> None \<and> n_quads sord = length (quads sord)
      \<and> list_all bound3 (quads sord)
      \<and> list_all (\<lambda>i. case indices sord i of
                         None \<Rightarrow> True
                       | Some db \<Rightarrow> index_sorted w db
                           \<and> set db = set (map (permute (orderings i)) (quads sord)))
           [0 ..< GSPO])"

section \<open>Example states\<close>

text \<open>The reference counts of a node: all references, and those as an object.\<close>

definition refs_of :: "SordWorld \<Rightarrow> SordNodeRef \<Rightarrow> (nat \<times> nat) option" where
  "refs_of w a = map_option (\<lambda>n. (refs n, refs_as_obj n)) (nodes w a)"

text \<open>The world after \<open>sord_new_uri(world, "x")\<close> on a new world.\<close>

definition world_uri_x :: SordWorld where
  "world_uri_x =
     \<lparr>names = [''x'' \<mapsto> 1], langs = Map.empty, literals = Map.empty, n_nodes = 1,
      nodes = [1 \<mapsto> \<lparr>node_type = SORD_URI, buf = ''x'', n_bytes = 2, refs = 1, refs_as_obj = 0,
                      datatype_node = NULL, lang = NULL, flags = 0\<rparr>],
      tags = Map.empty, next_node = 2\<rparr>"

text \<open>The same world after \<open>sord_node_free\<close> of that node: the node is gone.\<close>

definition world_x_freed :: SordWorld where
  "world_x_freed =
     \<lparr>names = Map.empty, langs = Map.empty, literals = Map.empty, n_nodes = 1,
      nodes = Map.empty, tags = Map.empty, next_node = 2\<rparr>"

text \<open>A new world whose node count stands at the largest value of a \<open>size_t\<close>.\<close>

definition world_count_max :: SordWorld where
  "world_count_max = sord_world_new\<lparr>n_nodes := SIZE_MAX\<rparr>"

definition api_start :: api_state where
  "api_start = \<lparr>world = sord_world_new, models = []\<rparr>"

lemma sord_new_uri_x: "sord_new_uri sord_world_new ''x'' = Some (1, world_uri_x)"
  by (simp add: sord_new_uri_def sord_new_uri_counted_def sord_lookup_name_def
      sord_new_node_def sord_add_node_def sord_world_new_def world_uri_x_def numeral_2_eq_2
      size_t_of_eq)

lemma sord_node_free_x: "sord_node_free world_uri_x 1 = Some world_x_freed"
  by (subst sord_node_free.simps) (simp add: world_uri_x_def world_x_freed_def)

text \<open>Worlds made by interning a list of URIs, one after the other, in a new world.\<close>

fun intern_uris :: "SordWorld \<Rightarrow> string list \<Rightarrow> SordWorld option" where
  "intern_uris w [] = Some w"
| "intern_uris w (str # strs) =
     (case sord_new_uri w str of None \<Rightarrow> None | Some (node, w') \<Rightarrow> intern_uris w' strs)"

text \<open>The world of the five URIs a, b, c, d, e: they are the nodes 1 to 5.\<close>

definition world_a_to_e :: SordWorld where
  "world_a_to_e = the (intern_uris sord_world_new [''a'', ''b'', ''c'', ''d'', ''e''])"

text \<open>Sequences of keys over these nodes, sorted as \<open>sord_quad_compare\<close> orders them.\<close>

definition index_two :: GSequence where
  "index_two = [(1, 2, 4, NULL), (1, 5, 3, NULL)]"

definition index_three :: GSequence where
  "index_three = [(1, 2, 3, NULL), (1, 2, 4, NULL), (1, 5, 3, NULL)]"

definition index_four :: GSequence where
  "index_four = [(1, 2, 3, NULL), (1, 2, 4, NULL), (1, 5, 3, NULL), (1, 5, 4, NULL)]"

definition index_graphs :: GSequence where
  "index_graphs = [(1, 2, 3, NULL), (1, 2, 3, 4), (1, 2, 3, 5)]"

text \<open>A model after adding a list of quads, one after the other, with the world it leaves.\<close>

fun add_quads :: "SordWorld \<Rightarrow> SordModel \<Rightarrow> SordQuad list \<Rightarrow> (SordWorld \<times> SordModel) option" where
  "add_quads w sord [] = Some (w, sord)"
| "add_quads w sord (tup # tups) =
     (case sord_add w sord tup of None \<Rightarrow> None | Some (b, w', sord') \<Rightarrow> add_quads w' sord' tups)"

text \<open>
  Models over the world of the five URIs: one with the indices SPO, SOP and their graph
  orders, after four calls of \<open>sord_add\<close>; one with SPO and GSPO, holding the triple
  (a, b, c) in the default graph and in the graph d.
\<close>

definition model_four :: "SordWorld \<times> SordModel" where
  "model_four = the (add_quads world_a_to_e (sord_new 3 True)
       [(1, 5, 3, NULL), (1, 2, 3, NULL), (1, 2, 3, 4), (1, 2, 4, NULL)])"

definition model_graph_pair :: "SordWorld \<times> SordModel" where
  "model_graph_pair = the (add_quads world_a_to_e (sord_new 1 True)
       [(1, 2, 3, NULL), (1, 2, 3, 4)])"

text \<open>
  A world like the one of the five URIs, with its nodes at addresses that have bit 31
  set, a sorted sequence of keys over them, and the model that has it as its only index.
\<close>

definition uri_node :: "string \<Rightarrow> SordNode" where
  "uri_node str = \<lparr>node_type = SORD_URI, buf = str, n_bytes = length str + 1, refs = 1,
      refs_as_obj = 0, datatype_node = NULL, lang = NULL, flags = 0\<rparr>"

definition world_high :: SordWorld where
  "world_high =
     \<lparr>names = [''a'' \<mapsto> 2147483664, ''b'' \<mapsto> 2147483680, ''c'' \<mapsto> 2147483696,
               ''d'' \<mapsto> 2147483712, ''e'' \<mapsto> 2147483728],
      langs = Map.empty, literals = Map.empty, n_nodes = 5,
      nodes = [2147483664 \<mapsto> uri_node ''a'', 2147483680 \<mapsto> uri_node ''b'',
               2147483696 \<mapsto> uri_node ''c'', 2147483712 \<mapsto> uri_node ''d'',
               2147483728 \<mapsto> uri_node ''e''],
      tags = Map.empty, next_node = 2147483744\<rparr>"

definition index_high :: GSequence where
  "index_high =
     [(2147483664, 2147483680, 2147483696, NULL), (2147483664, 2147483680, 2147483712, NULL),
      (2147483664, 2147483728, 2147483696, NULL), (2147483680, 2147483728, 2147483696, NULL)]"

definition model_high :: SordModel where
  "model_high = \<lparr>indices = (\<lambda>i. None)(DEFAULT_ORDER := Some index_high), n_quads = 4\<rparr>"

section \<open>Which indices exist\<close>

lemma sord_new_default_index: "indices (sord_new imask graphs) SPO \<noteq> None"
  by (simp add: sord_new_def Let_def)

lemma sord_add_to_index_materialized:
  "sord_add_to_index w sord tup ord = Some (r, sord') \<Longrightarrow>
   (indices sord' i = None) = (indices sord i = None)"
  by (auto simp: sord_add_to_index_def Let_def split: option.splits bool.splits if_splits)

lemma sord_add_loop_materialized:
  "sord_add_loop w sord tup is = Some (r, sord') \<Longrightarrow>
   (indices sord' i = None) = (indices sord i = None)"
proof (induction "is" arbitrary: sord)
  case Nil
  then show ?case by simp
next
  case (Cons j js)
  show ?case
  proof (cases "indices sord j")
    case None
    with Cons show ?thesis by simp
  next
    case (Some db)
    with Cons.prems obtain ok s1 where a: "sord_add_to_index w sord tup j = Some (ok, s1)"
      by (auto split: option.splits)
    show ?thesis
    proof (cases ok)
      case True
      with Cons.prems Some a have "sord_add_loop w s1 tup js = Some (r, sord')" by simp
      from Cons.IH[OF this] sord_add_to_index_materialized[OF a] show ?thesis by simp
    next
      case False
      with Cons.prems Some a have "sord' = s1" by (auto split: if_splits)
      with sord_add_to_index_materialized[OF a] show ?thesis by simp
    qed
  qed
qed

lemma sord_add_materialized:
  assumes "sord_add w sord tup = Some (r, w', sord')"
  shows "(indices sord' i = None) = (indices sord i = None)"
proof (cases "tup_get tup 0 = NULL \<or> tup_get tup 1 = NULL \<or> tup_get tup 2 = NULL")
  case True
  with assms show ?thesis by (simp add: sord_add_def)
next
  case False
  with assms obtain ok s1 where l: "sord_add_loop w sord tup [0 ..< NUM_ORDERS] = Some (ok, s1)"
    by (auto simp: sord_add_def split: option.splits)
  from assms False l have "indices sord' = indices s1"
    by (auto simp: sord_add_def Let_def split: option.splits if_splits)
  with sord_add_loop_materialized[OF l] show ?thesis by simp
qed

lemma sord_remove_loop_materialized:
  "sord_remove_loop w sord tup is = Some (r, sord') \<Longrightarrow>
   (indices sord' i = None) = (indices sord i = None)"
proof (induction "is" arbitrary: sord)
  case Nil
  then show ?case by simp
next
  case (Cons j js)
  show ?case
  proof (cases "indices sord j")
    case None
    with Cons show ?thesis by simp
  next
    case (Some db)
    with Cons.prems obtain c where c: "index_search w db (permute (orderings j) tup) = Some c"
      by (auto split: option.splits)
    show ?thesis
    proof (cases "g_sequence_iter_is_end db c")
      case True
      with Cons.prems Some c show ?thesis by (auto split: if_splits)
    next
      case False
      with Cons.prems Some c have
        "sord_remove_loop w (sord\<lparr>indices := (indices sord)(j := Some (g_sequence_remove db c))\<rparr>) tup js
           = Some (r, sord')" by simp
      from Cons.IH[OF this] Some show ?thesis by (auto split: if_splits)
    qed
  qed
qed

lemma sord_remove_materialized:
  assumes "sord_remove w sord tup = Some (w', sord')"
  shows "(indices sord' i = None) = (indices sord i = None)"
proof -
  from assms obtain go s1 where l: "sord_remove_loop w sord tup [0 ..< NUM_ORDERS] = Some (go, s1)"
    by (auto simp: sord_remove_def split: option.splits)
  from assms l have "indices sord' = indices s1"
    by (auto simp: sord_remove_def split: option.splits if_splits)
  with sord_remove_loop_materialized[OF l] show ?thesis by simp
qed


section \<open>Adding a quad with a null field\<close>

text \<open>
  C7. For every world, every model and every tuple whose subject, predicate or object is
  the null pointer, \<open>sord_add\<close> returns false and returns the world (all reference
  counts) and the model (all indices and \<open>n_quads\<close>) as they were.
\<close>

theorem sord_add_null_field:
  "tup_get tup TUP_S = NULL \<or> tup_get tup TUP_P = NULL \<or> tup_get tup TUP_O = NULL \<Longrightarrow>
   sord_add w sord tup = Some (False, w, sord)"
  by (auto simp: sord_add_def)

theorem sord_add_null_field_witness:
  "tup_get (1, NULL, 1, NULL) TUP_P = NULL
   \<and> sord_add world_uri_x (sord_new 1 False) (1, NULL, 1, NULL)
       = Some (False, world_uri_x, sord_new 1 False)"
  using sord_add_null_field[of "(1, NULL, 1, NULL)" world_uri_x "sord_new 1 False"] by simp

section \<open>One table of names for URIs and blank nodes\<close>

text \<open>
  C8. When the names table of a world holds a node for the string \<open>s\<close>, both
  \<open>sord_new_blank\<close> and \<open>sord_new_uri\<close> of \<open>s\<close> return that node, whatever its
  kind: the pointer is the one stored, the only change to the world is the node's
  reference count, one higher, and the node keeps its kind. So a blank node asked for
  under the string of an interned URI is that URI node, and the other way round.
\<close>

theorem names_table_shared:
  assumes "names w s = Some n" and "n \<noteq> NULL" and "nodes w n = Some nd"
  shows "sord_new_blank w s = Some (n, w\<lparr>nodes := (nodes w)(n \<mapsto> nd\<lparr>refs := refs nd + 1\<rparr>)\<rparr>)
       \<and> sord_new_uri w s = Some (n, w\<lparr>nodes := (nodes w)(n \<mapsto> nd\<lparr>refs := refs nd + 1\<rparr>)\<rparr>)
       \<and> node_type (nd\<lparr>refs := refs nd + 1\<rparr>) = node_type nd"
  using assms
  by (simp add: sord_new_blank_def sord_new_blank_counted_def sord_new_uri_def
      sord_new_uri_counted_def sord_lookup_name_def)

theorem names_table_shared_witness:
  "sord_new_uri sord_world_new ''x'' = Some (1, world_uri_x)
   \<and> names world_uri_x ''x'' = Some 1
   \<and> map_option node_type (nodes world_uri_x 1) = Some SORD_URI
   \<and> map_option (\<lambda>(b, w). (b, map_option node_type (nodes w b), refs_of w b, n_nodes w))
        (sord_new_blank world_uri_x ''x'') = Some (1, Some SORD_URI, Some (2, 0), 1)"
proof -
  have a: "names world_uri_x ''x'' = Some 1"
    by (simp add: world_uri_x_def)
  have b: "(1::nat) \<noteq> NULL" by simp
  have c: "nodes world_uri_x 1 = Some \<lparr>node_type = SORD_URI, buf = ''x'', n_bytes = 2, refs = 1,
      refs_as_obj = 0, datatype_node = NULL, lang = NULL, flags = 0\<rparr>"
    by (simp add: world_uri_x_def)
  note d = sord_new_uri_x
  have e: "n_nodes world_uri_x = 1"
    by (simp add: world_uri_x_def)
  from names_table_shared[OF a b c] a c d e show ?thesis
    by (simp add: refs_of_def)
qed

section \<open>The index a search uses\<close>

text \<open>
  C9. In a model that has its SPO index (every model \<open>sord_new\<close> makes has it, and
  \<open>sord_add\<close> and \<open>sord_remove\<close> keep it), the order \<open>sord_best_index\<close> chooses for
  a pattern with a null graph names an index that exists. For a pattern with a bound
  graph this fails: in a model with no graph index the order chosen is GSPO, and
  \<open>sord_find\<close> searches a null sequence, which is a failure of the program.
\<close>

theorem best_index_materialized:
  assumes "indices sord SPO \<noteq> None"
  shows "(tup_get p TUP_G = NULL \<longrightarrow> indices sord (fst (sord_best_index sord p)) \<noteq> None)
       \<and> (tup_get p TUP_G \<noteq> NULL \<and> list_all (\<lambda>i. indices sord i = None) [GSPO ..< NUM_ORDERS]
            \<longrightarrow> fst (sord_best_index sord p) = GSPO \<and> sord_find w sord p = None)"
proof -
  have first: "indices sord (fst (sord_best_index sord p)) \<noteq> None" if "tup_get p TUP_G = NULL"
    using that assms
    by (cases p) (auto simp: sord_best_index_def sord_has_index_def Let_def split: if_splits)
  have second: "fst (sord_best_index sord p) = GSPO \<and> sord_find w sord p = None"
    if a: "tup_get p TUP_G \<noteq> NULL" and l: "list_all (\<lambda>i. indices sord i = None) [GSPO ..< NUM_ORDERS]"
  proof -
    have up: "[GSPO ..< NUM_ORDERS] = [6, 7, 8, 9, 10, 11]"
      by code_simp
    from l have none: "indices sord 6 = None" "indices sord 7 = None" "indices sord 8 = None"
      "indices sord 9 = None" "indices sord 10 = None" "indices sord 11 = None"
      by (simp_all add: up)
    from a none have b: "fst (sord_best_index sord p) = GSPO"
      by (cases p) (simp add: sord_best_index_def sord_has_index_def Let_def)
    moreover from a b none have "sord_find w sord p = None"
      by (cases p) (auto simp: sord_find_def split: prod.splits)
    ultimately show ?thesis by simp
  qed
  from first second show ?thesis by blast
qed

theorem best_index_materialized_witness:
  "indices (sord_new 1 False) SPO \<noteq> None
   \<and> tup_get (1, NULL, 3, NULL) TUP_G = NULL
   \<and> indices (sord_new 1 False) (fst (sord_best_index (sord_new 1 False) (1, NULL, 3, NULL))) \<noteq> None
   \<and> tup_get (NULL, 2, NULL, 4) TUP_G \<noteq> NULL
   \<and> list_all (\<lambda>i. indices (sord_new 1 False) i = None) [GSPO ..< NUM_ORDERS]
   \<and> fst (sord_best_index (sord_new 1 False) (NULL, 2, NULL, 4)) = GSPO
   \<and> sord_find sord_world_new (sord_new 1 False) (NULL, 2, NULL, 4) = None"
proof -
  have h: "indices (sord_new 1 False) SPO \<noteq> None"
    by (rule sord_new_default_index)
  have g: "tup_get (1, NULL, 3, NULL) TUP_G = NULL" by simp
  have n: "tup_get (NULL, 2, NULL, 4) TUP_G \<noteq> NULL" by simp
  have l: "list_all (\<lambda>i. indices (sord_new 1 False) i = None) [GSPO ..< NUM_ORDERS]"
    by code_simp
  from best_index_materialized[OF h, of "(1, NULL, 3, NULL)" sord_world_new] g
    best_index_materialized[OF h, of "(NULL, 2, NULL, 4)" sord_world_new] n l h
  show ?thesis by blast
qed



section \<open>The node count\<close>

lemma sord_node_free_n_nodes:
  assumes "sord_node_free w node = Some w'"
  shows "n_nodes w' = n_nodes w"
  by (rule sord_node_free.raw_induct[where P = "\<lambda>w node w'. n_nodes w' = n_nodes w", OF _ assms])
     (auto split: if_splits option.splits simp: bind_eq_Some_conv)

lemma sord_node_free_internal_n_nodes:
  "sord_node_free_internal w node = Some w' \<Longrightarrow> n_nodes w' = n_nodes w"
  by (auto simp: sord_node_free_internal_def bind_eq_Some_conv
      split: option.splits if_splits dest: sord_node_free_n_nodes)

lemma sord_drop_quad_ref_n_nodes:
  "sord_drop_quad_ref w node i = Some w' \<Longrightarrow> n_nodes w' = n_nodes w"
  by (auto simp: sord_drop_quad_ref_def Let_def
      split: option.splits if_splits dest: sord_node_free_internal_n_nodes)

lemma sord_drop_quad_refs_n_nodes:
  "sord_drop_quad_refs w tup is = Some w' \<Longrightarrow> n_nodes w' = n_nodes w"
  by (induction "is" arbitrary: w)
     (auto split: option.splits dest: sord_drop_quad_ref_n_nodes)

lemma sord_add_quad_ref_n_nodes:
  "sord_add_quad_ref w node i = Some w' \<Longrightarrow> n_nodes w' = n_nodes w"
  by (auto simp: sord_add_quad_ref_def split: option.splits if_splits)

lemma sord_add_quad_refs_n_nodes:
  "sord_add_quad_refs w tup is = Some w' \<Longrightarrow> n_nodes w' = n_nodes w"
  by (induction "is" arbitrary: w)
     (auto split: option.splits dest: sord_add_quad_ref_n_nodes)

lemma sord_add_n_nodes:
  "sord_add w sord tup = Some (r, w', sord') \<Longrightarrow> n_nodes w' = n_nodes w"
  by (auto simp: sord_add_def Let_def split: option.splits if_splits
      dest: sord_add_quad_refs_n_nodes)

lemma sord_remove_n_nodes:
  "sord_remove w sord tup = Some (w', sord') \<Longrightarrow> n_nodes w' = n_nodes w"
  by (auto simp: sord_remove_def split: option.splits if_splits
      dest: sord_drop_quad_refs_n_nodes)

lemma sord_free_loop_n_nodes:
  "sord_free_loop w db iter = Some w' \<Longrightarrow> n_nodes w' = n_nodes w"
proof (induction w db iter rule: sord_free_loop.induct)
  case (1 w db iter)
  note eq = "1.prems"[unfolded sord_free_loop.simps[of w db iter]]
  show ?case
  proof (cases "at_end iter")
    case True
    with eq show ?thesis by simp
  next
    case False
    with eq obtain tup w1 e it1 where g: "sord_iter_get db iter = Some tup"
      and d: "sord_drop_quad_refs w tup [0 ..< TUP_LEN] = Some w1"
      and n: "sord_iter_next db iter = Some (e, it1)"
      and l: "sord_free_loop w1 db it1 = Some w'"
      by (auto split: option.splits)
    from "1.IH"[OF False g d n refl l] sord_drop_quad_refs_n_nodes[OF d]
    show ?thesis by simp
  qed
qed

lemma sord_free_n_nodes:
  "sord_free w sord = Some w' \<Longrightarrow> n_nodes w' = n_nodes w"
  by (auto simp: sord_free_def split: option.splits dest: sord_free_loop_n_nodes)

lemma sord_new_uri_n_nodes:
  "sord_new_uri w str = Some (node, w') \<Longrightarrow>
   n_nodes w' = (if sord_lookup_name w str (length str) = NULL
                 then size_t_of (n_nodes w + 1) else n_nodes w)"
  by (auto simp: sord_new_uri_def sord_new_uri_counted_def sord_new_node_def sord_add_node_def
      Let_def split: option.splits if_splits)

lemma sord_new_blank_n_nodes:
  "sord_new_blank w str = Some (node, w') \<Longrightarrow>
   n_nodes w' = (if sord_lookup_name w str (length str) = NULL
                 then size_t_of (n_nodes w + 1) else n_nodes w)"
  by (auto simp: sord_new_blank_def sord_new_blank_counted_def sord_new_node_def sord_add_node_def
      Let_def split: option.splits if_splits)

lemma sord_intern_lang_n_nodes: "n_nodes (snd (sord_intern_lang w l)) = n_nodes w"
  by (simp add: sord_intern_lang_def split: option.splits)

lemma sord_node_copy_n_nodes:
  "sord_node_copy w node = Some (r, w') \<Longrightarrow> n_nodes w' = n_nodes w"
  by (auto simp: sord_node_copy_def split: option.splits if_splits)

lemma sord_new_literal_node_n_nodes:
  assumes "sord_new_literal_node w dt str str_len fl l = Some (node, w')"
  shows "n_nodes w' = n_nodes w"
proof -
  obtain a w1 where a: "sord_new_node w SORD_LITERAL str (str_len + 1) fl = (a, w1)"
    by (cases "sord_new_node w SORD_LITERAL str (str_len + 1) fl")
  then have n1: "n_nodes w1 = n_nodes w"
    by (auto simp: sord_new_node_def)
  from assms a obtain dt' w2 where c: "sord_node_copy w1 dt = Some (dt', w2)"
    by (auto simp: sord_new_literal_node_def split: option.splits)
  obtain il w3 where i: "sord_intern_lang w2 l = (il, w3)"
    by (cases "sord_intern_lang w2 l")
  from i have n3: "n_nodes w3 = n_nodes w2"
    using sord_intern_lang_n_nodes[of w2 l] by simp
  from assms a c i have "n_nodes w' = n_nodes w3"
    by (auto simp: sord_new_literal_node_def split: option.splits)
  with n1 n3 sord_node_copy_n_nodes[OF c] show ?thesis by simp
qed

lemma sord_new_literal_counted_n_nodes:
  assumes "sord_new_literal_counted w dt str str_len fl l = Some (node, w')"
  shows "n_nodes w' = (if fst (sord_lookup_literal w dt str str_len l) = NULL
                       then size_t_of (n_nodes w + 1) else n_nodes w)"
proof -
  obtain a w1 where a: "sord_lookup_literal w dt str str_len l = (a, w1)"
    by (cases "sord_lookup_literal w dt str str_len l")
  then have n1: "n_nodes w1 = n_nodes w"
    using sord_intern_lang_n_nodes[of w l]
    by (auto simp: sord_lookup_literal_def split: prod.splits)
  show ?thesis
  proof (cases "a = NULL")
    case False
    with assms a n1 show ?thesis
      by (auto simp: sord_new_literal_counted_def split: option.splits)
  next
    case True
    with assms a obtain b w2 where b: "sord_new_literal_node w1 dt str str_len fl l = Some (b, w2)"
      by (auto simp: sord_new_literal_counted_def split: option.splits)
    from assms a True b have "n_nodes w' = size_t_of (n_nodes w2 + 1)"
      by (auto simp: sord_new_literal_counted_def sord_add_node_def Let_def
          split: option.splits if_splits)
    with sord_new_literal_node_n_nodes[OF b] n1 a True show ?thesis by simp
  qed
qed

lemma api_step_n_nodes:
  "api_step st c = Some st' \<Longrightarrow>
   n_nodes (world st') = (if interns_fresh (world st) c
                          then size_t_of (n_nodes (world st) + 1) else n_nodes (world st))"
proof (cases c)
  case (New_uri s)
  then show "api_step st c = Some st' \<Longrightarrow> ?thesis"
    by (auto dest: sord_new_uri_n_nodes)
next
  case (New_blank s)
  then show "api_step st c = Some st' \<Longrightarrow> ?thesis"
    by (auto dest: sord_new_blank_n_nodes)
next
  case (New_literal dt s len fl l)
  then show "api_step st c = Some st' \<Longrightarrow> ?thesis"
    by (auto dest: sord_new_literal_counted_n_nodes)
next
  case (Node_copy n)
  then show "api_step st c = Some st' \<Longrightarrow> ?thesis"
    by (auto dest: sord_node_copy_n_nodes)
next
  case (Node_free n)
  then show "api_step st c = Some st' \<Longrightarrow> ?thesis"
    by (auto dest: sord_node_free_n_nodes)
next
  case (Model_new m g)
  then show "api_step st c = Some st' \<Longrightarrow> ?thesis"
    by auto
next
  case (Model_add k t)
  then show "api_step st c = Some st' \<Longrightarrow> ?thesis"
    by (auto split: option.splits dest: sord_add_n_nodes)
next
  case (Model_remove k t)
  then show "api_step st c = Some st' \<Longrightarrow> ?thesis"
    by (auto split: option.splits dest: sord_remove_n_nodes)
next
  case (Model_free k)
  then show "api_step st c = Some st' \<Longrightarrow> ?thesis"
    by (auto split: option.splits dest: sord_free_n_nodes)
qed

lemma api_run_n_nodes:
  "api_run st cs = Some st' \<Longrightarrow> n_nodes (world st) + fresh_calls st cs \<le> SIZE_MAX \<Longrightarrow>
   n_nodes (world st') = n_nodes (world st) + fresh_calls st cs"
proof (induction cs arbitrary: st)
  case Nil
  then show ?case by simp
next
  case (Cons c cs)
  then obtain st1 where s: "api_step st c = Some st1" and r: "api_run st1 cs = Some st'"
    by (auto split: option.splits)
  let ?f = "if interns_fresh (world st) c then 1 else 0 :: nat"
  from Cons.prems(2) s have b: "n_nodes (world st) + ?f + fresh_calls st1 cs \<le> SIZE_MAX"
    by (simp add: add.assoc)
  have 1: "n_nodes (world st1) = n_nodes (world st) + ?f"
  proof (cases "interns_fresh (world st) c")
    case True
    with b have "n_nodes (world st) + 1 \<le> SIZE_MAX" by simp
    then have "size_t_of (n_nodes (world st) + 1) = n_nodes (world st) + 1"
      by (rule size_t_of_small)
    with api_step_n_nodes[OF s] True show ?thesis by simp
  next
    case False
    with api_step_n_nodes[OF s] show ?thesis by simp
  qed
  with b have "n_nodes (world st1) + fresh_calls st1 cs \<le> SIZE_MAX" by simp
  from Cons.IH[OF r this] 1 s show ?case by simp
qed

text \<open>
  C10, as amended. A call of the interface that returns increments \<open>sord_num_nodes\<close>,
  a \<open>size_t\<close>, when it interns a fresh node (an interning call whose lookup finds
  nothing) and leaves it as it is otherwise: when a node is released and destroyed, when
  a quad is removed, when a model is freed. So over a sequence of calls the count grows
  by the number of nodes the sequence interns, as long as that does not take it past
  \<open>SIZE_MAX\<close>: it never decreases, and counts the nodes ever interned.
\<close>

theorem num_nodes_never_decreases:
  "(api_step st c = Some st1 \<longrightarrow>
      sord_num_nodes (world st1)
        = (if interns_fresh (world st) c then size_t_of (sord_num_nodes (world st) + 1)
           else sord_num_nodes (world st)))
   \<and> (api_run st cs = Some st2 \<and> sord_num_nodes (world st) + fresh_calls st cs \<le> SIZE_MAX \<longrightarrow>
        sord_num_nodes (world st2) = sord_num_nodes (world st) + fresh_calls st cs)"
  using api_step_n_nodes[of st c st1] api_run_n_nodes[of st cs st2]
  by (simp add: sord_num_nodes_def)

theorem num_nodes_never_decreases_witness:
  "api_step api_start (New_uri ''x'') = Some \<lparr>world = world_uri_x, models = []\<rparr>
   \<and> interns_fresh (world api_start) (New_uri ''x'')
   \<and> sord_num_nodes (world api_start) = 0
   \<and> sord_num_nodes world_uri_x = 1
   \<and> api_run api_start [New_uri ''x'', Node_free 1] = Some \<lparr>world = world_x_freed, models = []\<rparr>
   \<and> fresh_calls api_start [New_uri ''x'', Node_free 1] = 1
   \<and> sord_num_nodes (world api_start) + fresh_calls api_start [New_uri ''x'', Node_free 1] \<le> SIZE_MAX
   \<and> nodes world_x_freed 1 = None
   \<and> sord_num_nodes world_x_freed = 1"
proof -
  have s: "api_step api_start (New_uri ''x'') = Some \<lparr>world = world_uri_x, models = []\<rparr>"
    using sord_new_uri_x by (simp add: api_start_def)
  have r: "api_run api_start [New_uri ''x'', Node_free 1] = Some \<lparr>world = world_x_freed, models = []\<rparr>"
    using sord_new_uri_x sord_node_free_x by (simp add: api_start_def)
  have f: "interns_fresh (world api_start) (New_uri ''x'')"
    by (simp add: api_start_def sord_world_new_def sord_lookup_name_def)
  have z: "sord_num_nodes (world api_start) = 0"
    by (simp add: api_start_def sord_world_new_def sord_num_nodes_def)
  have n: "fresh_calls api_start [New_uri ''x'', Node_free 1] = 1"
    using sord_new_uri_x sord_node_free_x
    by (simp add: api_start_def sord_world_new_def sord_lookup_name_def)
  have b: "sord_num_nodes (world api_start) + fresh_calls api_start [New_uri ''x'', Node_free 1]
      \<le> SIZE_MAX"
    unfolding z n by (simp add: SIZE_MAX_def)
  have g: "nodes world_x_freed 1 = None"
    by (simp add: world_x_freed_def)
  from num_nodes_never_decreases[of api_start "New_uri ''x''" "\<lparr>world = world_uri_x, models = []\<rparr>"
      "[New_uri ''x'', Node_free 1]" "\<lparr>world = world_x_freed, models = []\<rparr>"] s r f z n b g
  show ?thesis
    by (simp add: sord_num_nodes_def world_x_freed_def size_t_of_eq)
qed

text \<open>
  C10 as stated fails where the counter wraps: in a world whose count stands at
  \<open>SIZE_MAX\<close>, interning one more node takes it to 0.
\<close>

theorem num_nodes_wraps:
  "sord_num_nodes world_count_max = SIZE_MAX
   \<and> interns_fresh world_count_max (New_uri ''x'')
   \<and> map_option (\<lambda>st. sord_num_nodes (world st))
        (api_run \<lparr>world = world_count_max, models = []\<rparr> [New_uri ''x'']) = Some 0"
  by (simp add: world_count_max_def sord_world_new_def sord_num_nodes_def sord_lookup_name_def
      sord_new_uri_def sord_new_uri_counted_def sord_new_node_def sord_add_node_def
      size_t_of_eq SIZE_MAX_def)

section \<open>Removing and adding quads at the position of a search\<close>

text \<open>
  C2. A quad that is not in the model is not left alone by \<open>sord_remove\<close>. The worlds and
  models below are built by the interface itself: three URIs, a model with the SPO index
  only, the quad (b, b, c) added. Removing the absent quad (a, b, c) finds, in the SPO
  index, the position where (a, b, c) would be inserted; that position holds (b, b, c),
  it is not the end, and the quad there is removed. The index is then empty, the count
  of quads is 0, and the three nodes of the absent quad have given up a reference each
  (the node a, which had one, is destroyed).
\<close>

theorem sord_remove_absent_removes_neighbour:
  "do {
     (a, w1) \<leftarrow> sord_new_uri sord_world_new ''a'';
     (b, w2) \<leftarrow> sord_new_uri w1 ''b'';
     (c, w3) \<leftarrow> sord_new_uri w2 ''c'';
     (r, w4, m1) \<leftarrow> sord_add w3 (sord_new 1 False) (b, b, c, NULL);
     (w5, m2) \<leftarrow> sord_remove w4 m1 (a, b, c, NULL);
     Some ((a, b, c), r, indices m1 SPO, sord_num_quads m1, map (refs_of w4) [a, b, c],
           indices m2 SPO, sord_num_quads m2, map (refs_of w5) [a, b, c])
   } = Some ((1, 2, 3), True, Some [(2, 2, 3, 0)], 1, [Some (1, 0), Some (3, 0), Some (2, 1)],
             Some [], 0, [None, Some (2, 0), Some (1, 0)])"
  by code_simp

text \<open>
  C3. Adding a quad to an empty model and removing it again does not restore the model:
  the search in \<open>sord_remove\<close> answers the position behind the quad, which is the end of
  the index, and \<open>sord_remove\<close> returns as if the quad were not found. The quad stays
  in the SPO index, the count of quads stays 1, and the nodes keep the references the
  add gave them.
\<close>

theorem sord_add_remove_keeps_quad:
  "do {
     (a, w1) \<leftarrow> sord_new_uri sord_world_new ''a'';
     (b, w2) \<leftarrow> sord_new_uri w1 ''b'';
     (c, w3) \<leftarrow> sord_new_uri w2 ''c'';
     (r, w4, m1) \<leftarrow> sord_add w3 (sord_new 1 False) (a, b, c, NULL);
     (w5, m2) \<leftarrow> sord_remove w4 m1 (a, b, c, NULL);
     Some (r, sord_num_quads (sord_new 1 False), indices (sord_new 1 False) SPO,
           map (refs_of w3) [a, b, c],
           sord_num_quads m2, indices m2 SPO, map (refs_of w5) [a, b, c])
   } = Some (True, 0, Some [], [Some (1, 0), Some (1, 0), Some (1, 0)],
             1, Some [(1, 2, 3, 0)], [Some (2, 0), Some (2, 0), Some (2, 1)])"
  by code_simp

text \<open>
  C4. A quad that is in the model can be added a second time. With (a, b, c) in the
  default graph and (a, b, c, g) both stored, adding (a, b, c, g) again returns true: the
  search for the leftmost entry that matches the key steps back from (a, b, c, g) onto
  (a, b, c) with the null graph, which matches as a wildcard but does not compare equal,
  so no duplicate is reported. The SPO index then holds (a, b, c, g) twice, the count of
  quads is 3, and the nodes have another reference each.
\<close>

theorem sord_add_present_inserts_duplicate:
  "do {
     (a, w1) \<leftarrow> sord_new_uri sord_world_new ''a'';
     (b, w2) \<leftarrow> sord_new_uri w1 ''b'';
     (c, w3) \<leftarrow> sord_new_uri w2 ''c'';
     (g, w4) \<leftarrow> sord_new_uri w3 ''g'';
     (r1, w5, m1) \<leftarrow> sord_add w4 (sord_new 1 False) (a, b, c, NULL);
     (r2, w6, m2) \<leftarrow> sord_add w5 m1 (a, b, c, g);
     (r3, w7, m3) \<leftarrow> sord_add w6 m2 (a, b, c, g);
     Some (r1, r2, indices m2 SPO, sord_num_quads m2, map (refs_of w6) [a, b, c, g],
           r3, indices m3 SPO, sord_num_quads m3, map (refs_of w7) [a, b, c, g])
   } = Some (True, True, Some [(1, 2, 3, 0), (1, 2, 3, 4)], 2,
             [Some (3, 0), Some (3, 0), Some (3, 2), Some (2, 0)],
             True, Some [(1, 2, 3, 0), (1, 2, 3, 4), (1, 2, 3, 4)], 3,
             [Some (4, 0), Some (4, 0), Some (4, 3), Some (3, 0)])"
  by code_simp

section \<open>The prefix length of a graph search\<close>

text \<open>
  C5. With a bound graph the prefix length is not always one more than the listed one.
  \<open>sord_has_index\<close> adds one to the prefix length each time it is called, so the
  second candidate of a pair gets two more. For the pattern (s, *, *, g) the candidates
  are SPO and SOP with prefix length 1. A model with the indices SPO, SOP, GSPO and GSOP
  answers GSPO with prefix length 2; a model with SPO, SOP and GSOP but no GSPO answers
  GSOP with prefix length 3, though the bound prefix of the key (g, s, *, *) has two
  nodes.
\<close>

theorem sord_best_index_second_candidate:
  "map (\<lambda>i. indices (sord_new 3 True) i \<noteq> None) [SPO, SOP, GSPO, GSOP] = [True, True, True, True]
   \<and> sord_best_index (sord_new 3 True) (1, NULL, NULL, 4) = (GSPO, RANGE, 2)
   \<and> map (\<lambda>i. indices (sord_new 2 True) i \<noteq> None) [SPO, SOP, GSPO, GSOP] = [True, True, False, True]
   \<and> sord_best_index (sord_new 2 True) (1, NULL, NULL, 4) = (GSOP, RANGE, 3)"
  by code_simp


section \<open>The order of the comparator\<close>

lemma ptr_diff_same: "ptr_diff a a = 0"
  by (simp add: ptr_diff_def)

lemma sord_id_compare_same: "sord_id_compare w a a = Some 0"
  by (simp add: sord_id_compare_def ptr_diff_same)

text \<open>
  Between addresses below \<open>2^31\<close> a pointer difference is the difference of the
  addresses. The narrowing turns the sign of the difference for an address with bit 31
  set: a node there compares below the null pointer.
\<close>

lemma ptr_diff_small:
  assumes "a < 2147483648" and "b < 2147483648"
  shows "ptr_diff a b = int a - int b"
proof -
  from assms have "0 \<le> int a - int b + 2147483648" "int a - int b + 2147483648 < 4294967296"
    by simp_all
  then have "(int a - int b + 2147483648) mod 4294967296 = int a - int b + 2147483648"
    by (rule mod_pos_pos_trivial)
  then show ?thesis by (simp add: ptr_diff_def)
qed

lemma sord_id_compare_bit31:
  "sord_id_compare w 2147483664 NULL = Some (- 2147483632)"
  by (simp add: sord_id_compare_def ptr_diff_def)

lemma upt_TUP_LEN: "[0 ..< 4] = [0, 1, 2, 3::nat]"
  by code_simp

lemma tup_get_eqI:
  assumes "tup_get x 0 = tup_get y 0" and "tup_get x 1 = tup_get y 1"
    and "tup_get x 2 = tup_get y 2" and "tup_get x 3 = tup_get y 3"
  shows "x = y"
  using assms by (cases x; cases y) simp

text \<open>The comparison of two quads is decided at the first position that differs.\<close>

lemma sord_quad_compare_first:
  assumes "sord_quad_compare w x y = Some c"
  shows "\<exists>p \<le> 4. (\<forall>q < p. sord_id_compare w (tup_get x q) (tup_get y q) = Some 0)
           \<and> (if p = 4 then c = 0
                else sord_id_compare w (tup_get x p) (tup_get y p) = Some c \<and> c \<noteq> 0)"
proof -
  let ?c = "\<lambda>q. sord_id_compare w (tup_get x q) (tup_get y q)"
  from assms obtain c0 where c0: "?c 0 = Some c0"
    by (auto simp: sord_quad_compare_def upt_TUP_LEN split: option.splits)
  show ?thesis
  proof (cases "c0 = 0")
    case False
    with assms c0 have "?c 0 = Some c \<and> c \<noteq> 0"
      by (auto simp: sord_quad_compare_def upt_TUP_LEN)
    then show ?thesis by (intro exI[of _ 0]) simp
  next
    case z0: True
    with assms c0 obtain c1 where c1: "?c 1 = Some c1"
      by (auto simp: sord_quad_compare_def upt_TUP_LEN split: option.splits)
    show ?thesis
    proof (cases "c1 = 0")
      case False
      with assms c0 z0 c1 have "?c 1 = Some c \<and> c \<noteq> 0"
        by (auto simp: sord_quad_compare_def upt_TUP_LEN)
      with c0 z0 show ?thesis by (intro exI[of _ 1]) simp
    next
      case z1: True
      with assms c0 z0 c1 obtain c2 where c2: "?c 2 = Some c2"
        by (auto simp: sord_quad_compare_def upt_TUP_LEN split: option.splits)
      show ?thesis
      proof (cases "c2 = 0")
        case False
        with assms c0 z0 c1 z1 c2 have "?c 2 = Some c \<and> c \<noteq> 0"
          by (auto simp: sord_quad_compare_def upt_TUP_LEN)
        with c0 z0 c1 z1 show ?thesis
          by (intro exI[of _ 2]) (auto simp: less_Suc_eq numeral_2_eq_2)
      next
        case z2: True
        with assms c0 z0 c1 z1 c2 obtain c3 where c3: "?c 3 = Some c3"
          by (auto simp: sord_quad_compare_def upt_TUP_LEN split: option.splits)
        show ?thesis
        proof (cases "c3 = 0")
          case False
          with assms c0 z0 c1 z1 c2 z2 c3 have "?c 3 = Some c \<and> c \<noteq> 0"
            by (auto simp: sord_quad_compare_def upt_TUP_LEN)
          with c0 z0 c1 z1 c2 z2 show ?thesis
            by (intro exI[of _ 3]) (auto simp: less_Suc_eq eval_nat_numeral)
        next
          case z3: True
          with assms c0 z0 c1 z1 c2 z2 c3 have "c = 0"
            by (auto simp: sord_quad_compare_def upt_TUP_LEN)
          with c0 z0 c1 z1 c2 z2 c3 z3 show ?thesis
            by (intro exI[of _ 4]) (auto simp: less_Suc_eq eval_nat_numeral)
        qed
      qed
    qed
  qed
qed

lemma sord_quad_compare_decided:
  assumes "p < 4"
    and "\<forall>q < p. sord_id_compare w (tup_get x q) (tup_get y q) = Some 0"
    and "sord_id_compare w (tup_get x p) (tup_get y p) = Some c" and "c \<noteq> 0"
  shows "sord_quad_compare w x y = Some c"
proof -
  from assms(1) consider "p = 0" | "p = 1" | "p = 2" | "p = 3" by linarith
  then show ?thesis
  proof cases
    case 1
    with assms show ?thesis by (simp add: sord_quad_compare_def upt_TUP_LEN)
  next
    case 2
    with assms(2) have "sord_id_compare w (tup_get x 0) (tup_get y 0) = Some 0" by simp
    with 2 assms show ?thesis by (simp add: sord_quad_compare_def upt_TUP_LEN)
  next
    case 3
    with assms(2) have "sord_id_compare w (tup_get x 0) (tup_get y 0) = Some 0"
      "sord_id_compare w (tup_get x 1) (tup_get y 1) = Some 0" by simp_all
    with 3 assms show ?thesis by (simp add: sord_quad_compare_def upt_TUP_LEN)
  next
    case 4
    with assms(2) have "sord_id_compare w (tup_get x 0) (tup_get y 0) = Some 0"
      "sord_id_compare w (tup_get x 1) (tup_get y 1) = Some 0"
      "sord_id_compare w (tup_get x 2) (tup_get y 2) = Some 0" by simp_all
    with 4 assms show ?thesis by (simp add: sord_quad_compare_def upt_TUP_LEN)
  qed
qed

lemma sord_quad_compare_equal:
  assumes "\<forall>q < 4. sord_id_compare w (tup_get x q) (tup_get y q) = Some 0"
  shows "sord_quad_compare w x y = Some 0"
proof -
  from assms have "sord_id_compare w (tup_get x 0) (tup_get y 0) = Some 0"
    "sord_id_compare w (tup_get x 1) (tup_get y 1) = Some 0"
    "sord_id_compare w (tup_get x 2) (tup_get y 2) = Some 0"
    "sord_id_compare w (tup_get x 3) (tup_get y 3) = Some 0" by simp_all
  then show ?thesis by (simp add: sord_quad_compare_def upt_TUP_LEN)
qed

section \<open>The leftmost match of a key\<close>

lemma tup_get_nodes_of: "q < 4 \<Longrightarrow> tup_get x q \<in> set (nodes_of x)"
  by (simp add: nodes_of_def)

lemma compare_ordersD:
  assumes "compare_orders w ns" and "a \<in> set ns" and "b \<in> set ns"
  shows "\<exists>c. sord_id_compare w a b = Some c \<and> (c = 0 \<longrightarrow> a = b)"
proof -
  from assms have "case sord_id_compare w a b of
          None \<Rightarrow> False
        | Some c \<Rightarrow> (c = 0 \<longrightarrow> a = b) \<and> (b = NULL \<longrightarrow> 0 \<le> c)
            \<and> (case sord_id_compare w b a of None \<Rightarrow> False | Some d \<Rightarrow> (0 < c) = (d < 0))"
    unfolding compare_orders_def by blast
  then show ?thesis by (cases "sord_id_compare w a b") simp_all
qed

lemma compare_orders_null:
  assumes "compare_orders w ns" and "a \<in> set ns" and "NULL \<in> set ns"
  shows "\<exists>c. sord_id_compare w a NULL = Some c \<and> 0 \<le> c \<and> (c = 0 \<longrightarrow> a = NULL)"
proof -
  from assms have "case sord_id_compare w a NULL of
          None \<Rightarrow> False
        | Some c \<Rightarrow> (c = 0 \<longrightarrow> a = NULL) \<and> (NULL = NULL \<longrightarrow> 0 \<le> c)
            \<and> (case sord_id_compare w NULL a of None \<Rightarrow> False | Some d \<Rightarrow> (0 < c) = (d < 0))"
    unfolding compare_orders_def by blast
  then show ?thesis by (cases "sord_id_compare w a NULL") simp_all
qed

lemma compare_orders_flip:
  assumes "compare_orders w ns" and "a \<in> set ns" and "b \<in> set ns"
    and "sord_id_compare w a b = Some c"
  shows "\<exists>d. sord_id_compare w b a = Some d \<and> (0 < c) = (d < 0) \<and> (c = 0) = (d = 0)"
proof -
  from assms(1-3) have ab: "case sord_id_compare w a b of
          None \<Rightarrow> False
        | Some c \<Rightarrow> (c = 0 \<longrightarrow> a = b) \<and> (b = NULL \<longrightarrow> 0 \<le> c)
            \<and> (case sord_id_compare w b a of None \<Rightarrow> False | Some d \<Rightarrow> (0 < c) = (d < 0))"
    unfolding compare_orders_def by blast
  with assms(4) obtain d where d: "sord_id_compare w b a = Some d" "(0 < c) = (d < 0)"
    and c0: "c = 0 \<longrightarrow> a = b"
    by (cases "sord_id_compare w b a") simp_all
  from compare_ordersD[OF assms(1) assms(3) assms(2)] d(1) have d0: "d = 0 \<longrightarrow> b = a" by simp
  have "(c = 0) = (d = 0)"
    using c0 d0 assms(4) d(1) sord_id_compare_same[of w a] by auto
  with d show ?thesis by simp
qed

lemma compare_orders_mono:
  "compare_orders w ns \<Longrightarrow> set ms \<subseteq> set ns \<Longrightarrow> compare_orders w ms"
  by (auto simp: compare_orders_def)

lemma sord_quad_match_inline_iff:
  "sord_quad_match_inline x y = (\<forall>q < 4. sord_id_match (tup_get x q) (tup_get y q))"
proof
  assume "sord_quad_match_inline x y"
  then show "\<forall>q < 4. sord_id_match (tup_get x q) (tup_get y q)"
    by (auto simp: sord_quad_match_inline_def less_Suc_eq eval_nat_numeral)
next
  assume a: "\<forall>q < 4. sord_id_match (tup_get x q) (tup_get y q)"
  then have "sord_id_match (tup_get x 0) (tup_get y 0)" "sord_id_match (tup_get x 1) (tup_get y 1)"
    "sord_id_match (tup_get x 2) (tup_get y 2)" "sord_id_match (tup_get x 3) (tup_get y 3)"
    by simp_all
  then show "sord_quad_match_inline x y"
    by (simp add: sord_quad_match_inline_def)
qed

lemma match_boundD:
  assumes "bound_where key e" and "sord_quad_match_inline key e" and "q < 4"
    and "tup_get key q \<noteq> NULL"
  shows "tup_get e q = tup_get key q"
proof -
  from assms(2,3) have "sord_id_match (tup_get key q) (tup_get e q)"
    by (simp add: sord_quad_match_inline_iff)
  moreover from assms(1,3,4) have "tup_get e q \<noteq> NULL"
    by (simp add: bound_where_def list_all_iff)
  ultimately show ?thesis
    using assms(4) by (auto simp: sord_id_match_def)
qed

lemma prefix_key_down:
  assumes "prefix_key key" and "q \<le> p" and "p < 4" and "tup_get key p \<noteq> NULL"
  shows "tup_get key q \<noteq> NULL"
proof -
  from assms(2,3) consider "q = p" | "q = 0" "p = 1" | "q = 0" "p = 2" | "q = 1" "p = 2"
    | "q = 0" "p = 3" | "q = 1" "p = 3" | "q = 2" "p = 3"
    by linarith
  then show ?thesis
    using assms(1,4) by cases (auto simp: prefix_key_def)
qed

lemma prefix_key_up:
  assumes "prefix_key key" and "p \<le> q" and "q < 4" and "tup_get key p = NULL"
  shows "tup_get key q = NULL"
  using prefix_key_down[OF assms(1,2,3)] assms(4) by auto

text \<open>An entry that matches the key does not compare less, and compares equal only if it is the key.\<close>

lemma match_compare:
  assumes dist: "compare_orders w (nodes_of e @ nodes_of key)"
    and bw: "bound_where key e" and m: "sord_quad_match_inline key e"
  shows "\<exists>c. sord_quad_compare w e key = Some c \<and> 0 \<le> c \<and> (c = 0 \<longrightarrow> e = key)"
proof -
  have comp: "\<exists>d. sord_id_compare w (tup_get e q) (tup_get key q) = Some d \<and> 0 \<le> d
                \<and> (d = 0 \<longrightarrow> tup_get e q = tup_get key q)" if "q < 4" for q
  proof (cases "tup_get key q = NULL")
    case True
    from that have "tup_get e q \<in> set (nodes_of e @ nodes_of key)"
      "tup_get key q \<in> set (nodes_of e @ nodes_of key)"
      by (simp_all add: tup_get_nodes_of)
    with True compare_orders_null[OF dist, of "tup_get e q"] show ?thesis by auto
  next
    case False
    with bw m that have "tup_get e q = tup_get key q"
      by (intro match_boundD)
    then show ?thesis by (simp add: sord_id_compare_same)
  qed
  from comp[of 0] comp[of 1] comp[of 2] comp[of 3] obtain d0 d1 d2 d3 where
    d: "sord_id_compare w (tup_get e 0) (tup_get key 0) = Some d0" "0 \<le> d0"
       "d0 = 0 \<longrightarrow> tup_get e 0 = tup_get key 0"
       "sord_id_compare w (tup_get e 1) (tup_get key 1) = Some d1" "0 \<le> d1"
       "d1 = 0 \<longrightarrow> tup_get e 1 = tup_get key 1"
       "sord_id_compare w (tup_get e 2) (tup_get key 2) = Some d2" "0 \<le> d2"
       "d2 = 0 \<longrightarrow> tup_get e 2 = tup_get key 2"
       "sord_id_compare w (tup_get e 3) (tup_get key 3) = Some d3" "0 \<le> d3"
       "d3 = 0 \<longrightarrow> tup_get e 3 = tup_get key 3"
    by auto
  have eq: "e = key" if "d0 = 0" "d1 = 0" "d2 = 0" "d3 = 0"
    using that d by (intro tup_get_eqI) auto
  from d eq show ?thesis
    by (auto simp: sord_quad_compare_def upt_TUP_LEN)
qed

text \<open>
  Over pointers the comparator orders, the comparison of two quads is positive just
  when the comparison the other way round is negative.
\<close>

lemma sord_quad_compare_flip:
  assumes dist: "compare_orders w (nodes_of x @ nodes_of y)"
    and xy: "sord_quad_compare w x y = Some c"
  shows "\<exists>d. sord_quad_compare w y x = Some d \<and> (0 < c) = (d < 0) \<and> (c = 0) = (d = 0)"
proof -
  from sord_quad_compare_first[OF xy] obtain p where p: "p \<le> 4"
    and before: "\<forall>q < p. sord_id_compare w (tup_get x q) (tup_get y q) = Some 0"
    and at: "if p = 4 then c = 0
             else sord_id_compare w (tup_get x p) (tup_get y p) = Some c \<and> c \<noteq> 0"
    by blast
  have mem: "tup_get x q \<in> set (nodes_of x @ nodes_of y)"
    "tup_get y q \<in> set (nodes_of x @ nodes_of y)" if "q < 4" for q
    using that by (simp_all add: tup_get_nodes_of)
  have rev0: "sord_id_compare w (tup_get y q) (tup_get x q) = Some 0" if "q < p" for q
  proof -
    from that p have q4: "q < 4" by simp
    from compare_ordersD[OF dist mem(1)[OF q4] mem(2)[OF q4]] before that
    have "tup_get x q = tup_get y q" by auto
    then show ?thesis by (simp add: sord_id_compare_same)
  qed
  show ?thesis
  proof (cases "p = 4")
    case True
    with rev0 have "sord_quad_compare w y x = Some 0"
      by (intro sord_quad_compare_equal) simp
    with at True show ?thesis by simp
  next
    case False
    with p have p4: "p < 4" by simp
    from at False have c: "sord_id_compare w (tup_get x p) (tup_get y p) = Some c" "c \<noteq> 0"
      by simp_all
    from compare_orders_flip[OF dist mem(1)[OF p4] mem(2)[OF p4] c(1)] obtain d where
      d: "sord_id_compare w (tup_get y p) (tup_get x p) = Some d" "(0 < c) = (d < 0)"
        "(c = 0) = (d = 0)" by blast
    with c(2) have "d \<noteq> 0" by simp
    from sord_quad_compare_decided[OF p4 _ d(1) this] rev0
    have "sord_quad_compare w y x = Some d" by simp
    with d show ?thesis by simp
  qed
qed

text \<open>Two quads neither of which compares greater than the other are the same quad.\<close>

lemma compare_antisym:
  assumes dist: "compare_orders w (nodes_of e @ nodes_of key)"
    and ek: "sord_quad_compare w e key = Some c" "c \<le> 0"
    and ke: "sord_quad_compare w key e = Some d" "d \<le> 0"
  shows "e = key"
proof -
  from sord_quad_compare_flip[OF dist ek(1)] ke(1)
  have "(0 < c) = (d < 0)" "(c = 0) = (d = 0)" by simp_all
  with ek(2) ke(2) have c0: "c = 0" by auto
  from sord_quad_compare_first[OF ek(1)] c0
  have z: "\<forall>q < 4. sord_id_compare w (tup_get e q) (tup_get key q) = Some 0"
    by (auto split: if_splits)
  have "tup_get e q = tup_get key q" if "q < 4" for q
  proof -
    from that have "tup_get e q \<in> set (nodes_of e @ nodes_of key)"
      "tup_get key q \<in> set (nodes_of e @ nodes_of key)"
      by (simp_all add: tup_get_nodes_of)
    from compare_ordersD[OF dist this] z that show ?thesis by auto
  qed
  then show ?thesis by (intro tup_get_eqI) simp_all
qed

text \<open>
  For a key with trailing wildcards: an entry that compares greater than the key, but
  not greater than an entry that matches the key, matches the key itself.
\<close>

lemma match_between:
  assumes pk: "prefix_key key"
    and dist: "compare_orders w (nodes_of e @ nodes_of key)"
    and bw: "bound_where key e'"
    and m': "sord_quad_match_inline key e'"
    and gt: "sord_quad_compare w e key = Some c" "0 < c"
    and le: "sord_quad_compare w e e' = Some d" "d \<le> 0"
  shows "sord_quad_match_inline key e"
proof -
  from sord_quad_compare_first[OF gt(1)] gt(2) obtain p where p: "p < 4"
    and before: "\<forall>q < p. sord_id_compare w (tup_get e q) (tup_get key q) = Some 0"
    and at: "sord_id_compare w (tup_get e p) (tup_get key p) = Some c"
    by (auto split: if_splits simp: le_less)
  have null: "tup_get key p = NULL"
  proof (rule ccontr)
    assume nn: "tup_get key p \<noteq> NULL"
    have same: "tup_get e' q = tup_get key q" if "q \<le> p" for q
    proof -
      from prefix_key_down[OF pk that p nn] have "tup_get key q \<noteq> NULL" .
      moreover from that p have "q < 4" by simp
      ultimately show ?thesis
        using bw m' by (intro match_boundD)
    qed
    have "\<forall>q < p. sord_id_compare w (tup_get e q) (tup_get e' q) = Some 0"
      using before same by simp
    moreover have "sord_id_compare w (tup_get e p) (tup_get e' p) = Some c"
      using at same[of p] by simp
    ultimately have "sord_quad_compare w e e' = Some c"
      using p gt(2) by (intro sord_quad_compare_decided[of p]) auto
    with le gt(2) show False by simp
  qed
  have "sord_id_match (tup_get key q) (tup_get e q)" if "q < 4" for q
  proof (cases "q < p")
    case True
    from that have "tup_get e q \<in> set (nodes_of e @ nodes_of key)"
      "tup_get key q \<in> set (nodes_of e @ nodes_of key)"
      by (simp_all add: tup_get_nodes_of)
    from compare_ordersD[OF dist this] before True show ?thesis
      by (auto simp: sord_id_match_def)
  next
    case False
    then have "p \<le> q" by simp
    from prefix_key_up[OF pk this that null] show ?thesis
      by (simp add: sord_id_match_def)
  qed
  then show ?thesis by (simp add: sord_quad_match_inline_iff)
qed

lemma sord_quad_match_inline_refl: "sord_quad_match_inline key key"
  by (simp add: sord_quad_match_inline_def sord_id_match_def)

text \<open>What \<open>g_sequence_search\<close> returns.\<close>

lemma g_sequence_search_spec:
  "g_sequence_search cmp db key = Some u \<Longrightarrow>
   u \<le> length db
   \<and> (\<forall>j < u. \<exists>c. cmp (db ! j) key = Some c \<and> c \<le> 0)
   \<and> (u < length db \<longrightarrow> (\<exists>c. cmp (db ! u) key = Some c \<and> 0 < c))"
proof (induction db arbitrary: u)
  case Nil
  then show ?case by simp
next
  case (Cons e es)
  from Cons.prems obtain c where c: "cmp e key = Some c"
    by (auto split: option.splits)
  show ?case
  proof (cases "0 < c")
    case True
    with Cons.prems c show ?thesis by auto
  next
    case False
    with Cons.prems c obtain u' where u': "g_sequence_search cmp es key = Some u'" "u = Suc u'"
      by auto
    from Cons.IH[OF u'(1)] c False u'(2) show ?thesis
      by (auto simp: less_Suc_eq_0_disj)
  qed
qed

lemma g_sequence_search_returns:
  "\<forall>e \<in> set db. cmp e key \<noteq> None \<Longrightarrow> \<exists>u. g_sequence_search cmp db key = Some u"
  by (induction db) (auto split: option.splits)

text \<open>
  The final loop of \<open>index_lower_bound_iter\<close>, started at an entry that matches, returns
  the first position of the run of matching entries that ends there.
\<close>

lemma index_lower_bound_loop_run:
  "i < length db \<Longrightarrow> sord_quad_match_inline key (db ! i) \<Longrightarrow>
   \<exists>r. index_lower_bound_loop db key i = Some r \<and> r \<le> i
       \<and> (\<forall>j. r \<le> j \<and> j \<le> i \<longrightarrow> sord_quad_match_inline key (db ! j))
       \<and> (r = 0 \<or> \<not> sord_quad_match_inline key (db ! (r - 1)))"
proof (induction i)
  case 0
  then show ?case
    by (subst index_lower_bound_loop.simps) (simp add: g_sequence_iter_is_begin_def)
next
  case (Suc i)
  show ?case
  proof (cases "sord_quad_match_inline key (db ! i)")
    case False
    have "\<forall>j. Suc i \<le> j \<and> j \<le> Suc i \<longrightarrow> sord_quad_match_inline key (db ! j)"
      using Suc.prems(2) by (auto dest: le_antisym)
    moreover have "index_lower_bound_loop db key (Suc i) = Some (Suc i)"
      using False Suc.prems
      by (subst index_lower_bound_loop.simps)
         (simp add: g_sequence_iter_is_begin_def g_sequence_get_def g_sequence_iter_prev_def)
    ultimately show ?thesis using False by auto
  next
    case True
    from Suc.prems have "i < length db" by simp
    from Suc.IH[OF this True] obtain r where r: "index_lower_bound_loop db key i = Some r"
      "r \<le> i" "\<forall>j. r \<le> j \<and> j \<le> i \<longrightarrow> sord_quad_match_inline key (db ! j)"
      "r = 0 \<or> \<not> sord_quad_match_inline key (db ! (r - 1))" by blast
    have "index_lower_bound_loop db key (Suc i) = Some r"
      using Suc.prems True r(1)
      by (subst index_lower_bound_loop.simps)
         (simp add: g_sequence_iter_is_begin_def g_sequence_get_def g_sequence_iter_prev_def)
    moreover have "\<forall>j. r \<le> j \<and> j \<le> Suc i \<longrightarrow> sord_quad_match_inline key (db ! j)"
      using r(3) Suc.prems(2) by (auto simp: le_Suc_eq)
    ultimately show ?thesis using r(2,4) by auto
  qed
qed

lemma sord_quad_compare_returns:
  assumes "compare_orders w (nodes_of x @ nodes_of y)"
  shows "\<exists>c. sord_quad_compare w x y = Some c"
proof -
  have "\<exists>c. sord_id_compare w (tup_get x q) (tup_get y q) = Some c" if "q < 4" for q
  proof -
    from that have "tup_get x q \<in> set (nodes_of x @ nodes_of y)"
      "tup_get y q \<in> set (nodes_of x @ nodes_of y)"
      by (simp_all add: tup_get_nodes_of)
    from compare_ordersD[OF assms this] show ?thesis by blast
  qed
  from this[of 0] this[of 1] this[of 2] this[of 3] show ?thesis
    by (auto simp: sord_quad_compare_def upt_TUP_LEN)
qed

lemma index_sortedD:
  "index_sorted w db \<Longrightarrow> i < j \<Longrightarrow> j < length db \<Longrightarrow>
   \<exists>c. sord_quad_compare w (db ! i) (db ! j) = Some c \<and> c \<le> 0"
proof -
  assume a: "index_sorted w db" "i < j" "j < length db"
  then have "case sord_quad_compare w (db ! i) (db ! j) of None \<Rightarrow> False | Some c \<Rightarrow> c \<le> 0"
    unfolding index_sorted_def sorted_wrt_iff_nth_less by blast
  then show ?thesis by (simp split: option.splits)
qed

text \<open>
  C6, as amended. In a sorted index over pointers the comparator orders, with the null
  pointer as the minimum, for a key whose wildcards are trailing, where every entry
  that matches the key has a node wherever the key binds one: if an entry matches the
  key, \<open>index_lower_bound\<close> returns a position, the entry there matches, and no entry
  before it does.
\<close>

theorem index_lower_bound_leftmost:
  assumes sorted: "index_sorted w db"
    and dist: "compare_orders w (concat (map nodes_of (key # db)))"
    and pk: "prefix_key key"
    and bw: "\<forall>e \<in> set db. sord_quad_match_inline key e \<longrightarrow> bound_where key e"
    and ex: "\<exists>e \<in> set db. sord_quad_match_inline key e"
  shows "\<exists>r. index_lower_bound w db key = Some r \<and> r < length db
           \<and> sord_quad_match_inline key (db ! r)
           \<and> (\<forall>j < r. \<not> sord_quad_match_inline key (db ! j))"
proof -
  let ?m = "\<lambda>j. sord_quad_match_inline key (db ! j)"
  have dist2: "compare_orders w (nodes_of (db ! j) @ nodes_of key)" if "j < length db" for j
    using that by (intro compare_orders_mono[OF dist]) auto
  have "\<forall>e \<in> set db. sord_quad_compare w e key \<noteq> None"
  proof
    fix e assume "e \<in> set db"
    then have "compare_orders w (nodes_of e @ nodes_of key)"
      by (intro compare_orders_mono[OF dist]) auto
    from sord_quad_compare_returns[OF this] show "sord_quad_compare w e key \<noteq> None" by auto
  qed
  from g_sequence_search_returns[of db "sord_quad_compare w" key, OF this] obtain u where
    u: "g_sequence_search (sord_quad_compare w) db key = Some u" by blast
  from g_sequence_search_spec[OF u] have ule: "u \<le> length db"
    and below: "\<And>j. j < u \<Longrightarrow> \<exists>c. sord_quad_compare w (db ! j) key = Some c \<and> c \<le> 0"
    and at: "u < length db \<Longrightarrow> \<exists>c. sord_quad_compare w (db ! u) key = Some c \<and> 0 < c"
    by auto
  from ex obtain m where m: "m < length db" "?m m"
    by (auto simp: in_set_conv_nth)
  have f1: "db ! j = key" if "j < u" "?m j" for j
  proof -
    from that ule have jl: "j < length db" by simp
    with bw that(2) have "bound_where key (db ! j)" by simp
    from match_compare[OF dist2[OF jl] this that(2)] below[OF that(1)] show ?thesis by auto
  qed
  have f2: "db ! i = key" if "j < u" "db ! j = key" "j \<le> i" "i < u" for i j
  proof (cases "i = j")
    case True
    with that show ?thesis by simp
  next
    case False
    with that ule have "j < i" "i < length db" by simp_all
    from index_sortedD[OF sorted this] that(2) obtain d where
      d: "sord_quad_compare w key (db ! i) = Some d" "d \<le> 0" by auto
    from below[OF that(4)] obtain c where
      c: "sord_quad_compare w (db ! i) key = Some c" "c \<le> 0" by auto
    from compare_antisym[OF dist2[OF \<open>i < length db\<close>] c d] show ?thesis .
  qed
  have f3: "u < length db \<and> ?m u" if "u \<le> j" "j < length db" "?m j" for j
  proof (cases "j = u")
    case True
    with that show ?thesis by simp
  next
    case False
    with that have lt: "u < j" by simp
    with that have ul: "u < length db" by simp
    from at[OF ul] obtain c where c: "sord_quad_compare w (db ! u) key = Some c" "0 < c" by auto
    from index_sortedD[OF sorted lt that(2)] obtain d where
      d: "sord_quad_compare w (db ! u) (db ! j) = Some d" "d \<le> 0" by auto
    from that(2,3) bw have "bound_where key (db ! j)" by simp
    from match_between[OF pk dist2[OF ul] this that(3) c d] ul show ?thesis by simp
  qed
  have before: "db ! (u - 1) = key" if "j < u" "?m j" for j
    using f2[OF that(1) f1[OF that], of "u - 1"] that(1) by simp
  show ?thesis
  proof (cases "u = 0")
    case True
    with f3[of m] m have "?m 0" "0 < length db" by simp_all
    moreover from True u have "index_lower_bound w db key = Some 0"
      by (simp add: index_lower_bound_def index_lower_bound_iter_def g_sequence_iter_is_begin_def)
    ultimately show ?thesis by simp
  next
    case False
    have "\<exists>s. s < length db \<and> ?m s \<and> s \<le> u
            \<and> index_lower_bound w db key = index_lower_bound_loop db key s"
    proof (cases "u < length db \<and> ?m u")
      case True
      with False u have "index_lower_bound w db key = index_lower_bound_loop db key u"
        by (simp add: index_lower_bound_def index_lower_bound_iter_def g_sequence_iter_is_begin_def
            g_sequence_iter_is_end_def g_sequence_get_def)
      with True show ?thesis by auto
    next
      case nomatch: False
      have "m < u"
      proof (rule ccontr)
        assume "\<not> m < u"
        with f3[of m] m nomatch show False by simp
      qed
      from before[OF this m(2)] have k: "db ! (u - 1) = key" .
      then have mk: "?m (u - 1)" by (simp add: sord_quad_match_inline_refl)
      from False ule have ul: "u - 1 < length db" by simp
      have "index_lower_bound w db key = index_lower_bound_loop db key (u - 1)"
      proof (cases "u < length db")
        case True
        with nomatch have "\<not> ?m u" by simp
        with True False u mk ul show ?thesis
          by (simp add: index_lower_bound_def index_lower_bound_iter_def
              g_sequence_iter_is_begin_def g_sequence_iter_is_end_def g_sequence_get_def
              g_sequence_iter_prev_def)
      next
        case False
        with ule have "u = length db" by simp
        with \<open>u \<noteq> 0\<close> u mk ul show ?thesis
          by (simp add: index_lower_bound_def index_lower_bound_iter_def
              g_sequence_iter_is_begin_def g_sequence_iter_is_end_def g_sequence_get_def
              g_sequence_iter_prev_def)
      qed
      with mk ul show ?thesis by (intro exI[of _ "u - 1"]) simp
    qed
    then obtain s where s: "s < length db" "?m s" "s \<le> u"
      "index_lower_bound w db key = index_lower_bound_loop db key s" by blast
    from index_lower_bound_loop_run[OF s(1,2)] obtain r where
      r: "index_lower_bound_loop db key s = Some r" "r \<le> s"
        "\<forall>j. r \<le> j \<and> j \<le> s \<longrightarrow> ?m j" "r = 0 \<or> \<not> ?m (r - 1)" by blast
    have "\<not> ?m j" if "j < r" for j
    proof
      assume mj: "?m j"
      from that r(2) s(3) have ju: "j < u" by simp
      from that r(2) s(3) have "j \<le> r - 1" "r - 1 < u" by simp_all
      from f2[OF ju f1[OF ju mj] this] have "?m (r - 1)"
        by (simp add: sord_quad_match_inline_refl)
      with r(4) that show False by simp
    qed
    with r s show ?thesis by auto
  qed
qed

theorem index_lower_bound_leftmost_witness:
  "index_sorted world_a_to_e index_four
   \<and> compare_orders world_a_to_e (concat (map nodes_of ((1, 5, NULL, NULL) # index_four)))
   \<and> prefix_key (1, 5, NULL, NULL)
   \<and> list_all (\<lambda>e. sord_quad_match_inline (1, 5, NULL, NULL) e \<longrightarrow> bound_where (1, 5, NULL, NULL) e)
        index_four
   \<and> list_ex (sord_quad_match_inline (1, 5, NULL, NULL)) index_four
   \<and> map (sord_quad_match_inline (1, 5, NULL, NULL)) index_four = [False, False, True, True]
   \<and> index_lower_bound world_a_to_e index_four (1, 5, NULL, NULL) = Some 2
   \<and> (\<exists>r. index_lower_bound world_a_to_e index_four (1, 5, NULL, NULL) = Some r
         \<and> r < length index_four
         \<and> sord_quad_match_inline (1, 5, NULL, NULL) (index_four ! r)
         \<and> (\<forall>j < r. \<not> sord_quad_match_inline (1, 5, NULL, NULL) (index_four ! j)))"
proof -
  let ?key = "(1, 5, NULL, NULL) :: SordQuad"
  have s: "index_sorted world_a_to_e index_four" by code_simp
  have d: "compare_orders world_a_to_e (concat (map nodes_of (?key # index_four)))"
    by code_simp
  have p: "prefix_key ?key" by code_simp
  have b: "list_all (\<lambda>e. sord_quad_match_inline ?key e \<longrightarrow> bound_where ?key e) index_four"
    by code_simp
  have e: "list_ex (sord_quad_match_inline ?key) index_four" by code_simp
  have m: "map (sord_quad_match_inline ?key) index_four = [False, False, True, True]"
    by code_simp
  have v: "index_lower_bound world_a_to_e index_four ?key = Some 2" by code_simp
  from b have b': "\<forall>e \<in> set index_four. sord_quad_match_inline ?key e \<longrightarrow> bound_where ?key e"
    unfolding list_all_iff .
  from e have e': "\<exists>e \<in> set index_four. sord_quad_match_inline ?key e"
    unfolding list_ex_iff .
  note c = index_lower_bound_leftmost[OF s d p b' e']
  from s d p b e m v c show ?thesis
    by - (intro conjI, assumption+)
qed

text \<open>
  C6 as stated fails for a key with a wildcard before a bound position, as the keys of
  the filtering modes are. In the sorted index of (a, b, d) and (a, e, c) the key
  (a, *, c) matches the second entry only; \<open>index_lower_bound\<close> returns the first
  position, whose entry does not match.
\<close>

theorem index_lower_bound_wildcard_inside:
  "index_sorted world_a_to_e index_two
   \<and> sord_quad_match_inline (1, NULL, 3, NULL) (index_two ! 1)
   \<and> index_lower_bound world_a_to_e index_two (1, NULL, 3, NULL) = Some 0
   \<and> \<not> sord_quad_match_inline (1, NULL, 3, NULL) (index_two ! 0)"
  by code_simp

text \<open>
  It also fails when an entry has a null where the key binds a node, since a null matches
  as a wildcard on either side: the entry (a, b, c) with the null graph matches the key
  (a, b, c, e), but the walk to the left from (a, b, c, e) stops at (a, b, c, d).
\<close>

lemma index_lower_bound_null_entry:
  "index_sorted world_a_to_e index_graphs
   \<and> prefix_key (1, 2, 3, 5)
   \<and> sord_quad_match_inline (1, 2, 3, 5) (index_graphs ! 0)
   \<and> index_lower_bound world_a_to_e index_graphs (1, 2, 3, 5) = Some 2"
  by code_simp

section \<open>Walking a sorted index\<close>

lemma agree_iff: "agree n x y = (\<forall>q < n. tup_get x q = tup_get y q)"
  by (auto simp: agree_def list_all_iff)

lemma agree_refl: "agree n x x"
  by (simp add: agree_iff)

lemma agree_sym: "agree n x y \<Longrightarrow> agree n y x"
  by (simp add: agree_iff)

lemma agree_trans: "agree n x y \<Longrightarrow> agree n y z \<Longrightarrow> agree n x z"
  by (simp add: agree_iff)

lemma agree_less: "agree n x y \<Longrightarrow> m \<le> n \<Longrightarrow> agree m x y"
  by (simp add: agree_iff)

lemma agree3_iff:
  "agree 3 x y = (tup_get x 0 = tup_get y 0 \<and> tup_get x 1 = tup_get y 1 \<and> tup_get x 2 = tup_get y 2)"
  by (auto simp: agree_iff less_Suc_eq eval_nat_numeral)

text \<open>The loop of \<open>sord_iter_forward\<close> stops at the next key that differs in its first three nodes.\<close>

lemma sord_iter_forward_loop_spec:
  "c < length db \<Longrightarrow>
   (case sord_iter_forward_loop db initial c of
      (c', e) \<Rightarrow> c < c' \<and> c' \<le> length db \<and> e = (c' = length db)
        \<and> (\<forall>j. c < j \<and> j < c' \<longrightarrow> agree 3 (db ! j) initial)
        \<and> (c' < length db \<longrightarrow> \<not> agree 3 (db ! c') initial))"
proof (induction db initial c rule: sord_iter_forward_loop.induct)
  case (1 db initial c)
  have nx: "g_sequence_iter_next db c = Suc c"
    using "1.prems" by (simp add: g_sequence_iter_next_def)
  show ?case
  proof (cases "Suc c < length db")
    case False
    with "1.prems" have "Suc c = length db" by simp
    then show ?thesis
      by (subst sord_iter_forward_loop.simps)
         (auto simp: nx g_sequence_iter_is_end_def Let_def)
  next
    case lt: True
    show ?thesis
    proof (cases "agree 3 (db ! Suc c) initial")
      case False
      with lt show ?thesis
        by (subst sord_iter_forward_loop.simps)
           (auto simp: nx g_sequence_iter_is_end_def Let_def agree3_iff)
    next
      case True
      with lt have eq: "sord_iter_forward_loop db initial c = sord_iter_forward_loop db initial (Suc c)"
        by (subst sord_iter_forward_loop.simps)
           (auto simp: nx g_sequence_iter_is_end_def Let_def agree3_iff)
      obtain c' e where r: "sord_iter_forward_loop db initial (Suc c) = (c', e)"
        by (cases "sord_iter_forward_loop db initial (Suc c)")
      have "case sord_iter_forward_loop db initial (Suc c) of
              (c', e) \<Rightarrow> Suc c < c' \<and> c' \<le> length db \<and> e = (c' = length db)
                \<and> (\<forall>j. Suc c < j \<and> j < c' \<longrightarrow> agree 3 (db ! j) initial)
                \<and> (c' < length db \<longrightarrow> \<not> agree 3 (db ! c') initial)"
        using "1.IH"[of "Suc c"] lt True
        by (simp add: nx g_sequence_iter_is_end_def agree3_iff)
      with r have p: "Suc c < c'" "c' \<le> length db" "e = (c' = length db)"
        "\<forall>j. Suc c < j \<and> j < c' \<longrightarrow> agree 3 (db ! j) initial"
        "c' < length db \<longrightarrow> \<not> agree 3 (db ! c') initial"
        by auto
      have "agree 3 (db ! j) initial" if "c < j" "j < c'" for j
      proof (cases "j = Suc c")
        case True
        with \<open>agree 3 (db ! Suc c) initial\<close> show ?thesis by simp
      next
        case False
        with that have "Suc c < j" by simp
        with p(4) that show ?thesis by simp
      qed
      with p show ?thesis
        unfolding eq r by auto
    qed
  qed
qed

lemma sord_iter_forward_skip:
  assumes "skip_graphs it" and "cur it < length db"
  shows "\<exists>c'. sord_iter_forward db it = Some (c' = length db, it\<lparr>cur := c'\<rparr>)
           \<and> cur it < c' \<and> c' \<le> length db
           \<and> (\<forall>j. cur it < j \<and> j < c' \<longrightarrow> agree 3 (db ! j) (db ! cur it))
           \<and> (c' < length db \<longrightarrow> \<not> agree 3 (db ! c') (db ! cur it))"
proof -
  obtain c' e where l: "sord_iter_forward_loop db (db ! cur it) (cur it) = (c', e)"
    by (cases "sord_iter_forward_loop db (db ! cur it) (cur it)")
  from sord_iter_forward_loop_spec[OF assms(2), of "db ! cur it"] l
  have "cur it < c'" "c' \<le> length db" "e = (c' = length db)"
    "\<forall>j. cur it < j \<and> j < c' \<longrightarrow> agree 3 (db ! j) (db ! cur it)"
    "c' < length db \<longrightarrow> \<not> agree 3 (db ! c') (db ! cur it)"
    by auto
  moreover from assms l have "sord_iter_forward db it = Some (e, it\<lparr>cur := c'\<rparr>)"
    by (simp add: sord_iter_forward_def g_sequence_get_def)
  ultimately show ?thesis by auto
qed

text \<open>
  In a sorted index the entries that agree on their first \<open>n\<close> positions are next to
  each other.
\<close>

lemma agree_between:
  assumes sorted: "index_sorted w db"
    and dist: "compare_orders w (concat (map nodes_of db))"
    and ij: "i \<le> j" and jk: "j \<le> k" and k: "k < length db"
  shows "n \<le> 4 \<Longrightarrow> agree n (db ! i) (db ! k) \<Longrightarrow> agree n (db ! i) (db ! j)"
proof (induction n)
  case 0
  show ?case by (simp add: agree_iff)
next
  case (Suc n)
  from Suc.prems have n4: "n < 4" by simp
  from Suc.prems have an: "agree n (db ! i) (db ! k)"
    by (simp add: agree_iff)
  from Suc.IH[OF _ an] n4 have aj: "agree n (db ! i) (db ! j)" by simp
  from Suc.prems have xz: "tup_get (db ! i) n = tup_get (db ! k) n"
    by (simp add: agree_iff)
  have "tup_get (db ! j) n = tup_get (db ! i) n"
  proof (rule ccontr)
    assume ne: "tup_get (db ! j) n \<noteq> tup_get (db ! i) n"
    with xz have i_lt: "i < j" and j_lt: "j < k"
      using ij jk by (auto simp: le_less)
    let ?x = "db ! i" and ?y = "db ! j" and ?z = "db ! k"
    have mem: "tup_get (db ! a) q \<in> set (concat (map nodes_of db))" if "a < length db" "q < 4" for a q
      using that by (auto simp: tup_get_nodes_of intro!: bexI[of _ "db ! a"])
    from compare_ordersD[OF dist mem[of i n] mem[of j n]] i_lt j_lt k n4 ne
    obtain c where c: "sord_id_compare w (tup_get ?x n) (tup_get ?y n) = Some c" "c \<noteq> 0"
      by auto
    have zero: "sord_id_compare w a a = Some 0" for a
      by (rule sord_id_compare_same)
    have "\<forall>q < n. sord_id_compare w (tup_get ?x q) (tup_get ?y q) = Some 0"
      using aj zero by (simp add: agree_iff)
    from sord_quad_compare_decided[OF n4 this c] have xy: "sord_quad_compare w ?x ?y = Some c" .
    from compare_orders_flip[OF dist mem[of i n] mem[of j n] c(1)] i_lt j_lt k n4
    obtain d where d: "sord_id_compare w (tup_get ?y n) (tup_get ?x n) = Some d"
      "(0 < c) = (d < 0)" "(c = 0) = (d = 0)" by auto
    from d(1) xz have c': "sord_id_compare w (tup_get ?y n) (tup_get ?z n) = Some d" by simp
    from d(3) c(2) have d0: "d \<noteq> 0" by simp
    have "\<forall>q < n. sord_id_compare w (tup_get ?y q) (tup_get ?z q) = Some 0"
      using aj an zero by (simp add: agree_iff)
    from sord_quad_compare_decided[OF n4 this c' d0]
    have yz: "sord_quad_compare w ?y ?z = Some d" .
    from index_sortedD[OF sorted i_lt] j_lt k xy have "c \<le> 0" by simp
    moreover from index_sortedD[OF sorted j_lt k] yz have "d \<le> 0" by simp
    ultimately show False using c(2) d0 d(2) by auto
  qed
  with aj show ?case
    by (auto simp: agree_iff less_Suc_eq)
qed

lemma sord_quad_match_inline_sym: "sord_quad_match_inline x y = sord_quad_match_inline y x"
  by (auto simp: sord_quad_match_inline_def sord_id_match_def)

text \<open>Under a key with a null graph, keys that agree on their first three nodes match alike.\<close>

lemma match_agree3:
  "tup_get key 3 = NULL \<Longrightarrow> agree 3 e e' \<Longrightarrow>
   sord_quad_match_inline e key = sord_quad_match_inline e' key"
  by (simp add: sord_quad_match_inline_def sord_id_match_def agree3_iff)

text \<open>\<open>sord_iter_seek_match\<close> stops at the first entry at or behind the cursor that matches.\<close>

lemma sord_iter_seek_match_loop_spec:
  assumes sk: "skip_graphs it" and g: "tup_get (pat it) 3 = NULL"
  shows "cur it \<le> length db \<Longrightarrow>
     \<exists>c' b. sord_iter_seek_match_loop db it = Some (b, it\<lparr>cur := c', at_end := (if b then at_end it else False)\<rparr>)
       \<and> cur it \<le> c' \<and> c' \<le> length db
       \<and> (\<forall>j. cur it \<le> j \<and> j < c' \<longrightarrow> \<not> sord_quad_match_inline (db ! j) (pat it))
       \<and> (if b then c' = length db else c' < length db \<and> sord_quad_match_inline (db ! c') (pat it))"
  using sk g
proof (induction "length db - cur it" arbitrary: it rule: less_induct)
  case less
  let ?c = "cur it"
  show ?case
  proof (cases "?c = length db")
    case True
    then have "sord_iter_seek_match_loop db it = Some (True, it)"
      by (subst sord_iter_seek_match_loop.simps) (simp add: g_sequence_iter_is_end_def)
    with True show ?thesis
      by (intro exI[of _ "length db"] exI[of _ True]) auto
  next
    case False
    with less.prems have lt: "?c < length db" by simp
    show ?thesis
    proof (cases "sord_quad_match_inline (db ! ?c) (pat it)")
      case True
      with lt have "sord_iter_seek_match_loop db it = Some (False, it\<lparr>at_end := False\<rparr>)"
        by (subst sord_iter_seek_match_loop.simps)
           (simp add: g_sequence_iter_is_end_def g_sequence_get_def)
      with True lt show ?thesis
        by (intro exI[of _ "?c"] exI[of _ False]) auto
    next
      case nm: False
      from sord_iter_forward_skip[OF less.prems(2) lt] obtain c1 where
        f: "sord_iter_forward db it = Some (c1 = length db, it\<lparr>cur := c1\<rparr>)"
        and c1: "?c < c1" "c1 \<le> length db"
        and skipped: "\<forall>j. ?c < j \<and> j < c1 \<longrightarrow> agree 3 (db ! j) (db ! ?c)"
        by blast
      let ?it1 = "it\<lparr>cur := c1\<rparr>"
      have eq: "sord_iter_seek_match_loop db it = sord_iter_seek_match_loop db ?it1"
        using lt nm f
        by (subst sord_iter_seek_match_loop.simps)
           (simp add: g_sequence_iter_is_end_def g_sequence_get_def)
      have "length db - cur ?it1 < length db - ?c"
        using c1 lt by simp
      from less.hyps[OF this] c1 less.prems have
        "\<exists>c' b. sord_iter_seek_match_loop db ?it1
              = Some (b, it\<lparr>cur := c', at_end := (if b then at_end it else False)\<rparr>)
          \<and> c1 \<le> c' \<and> c' \<le> length db
          \<and> (\<forall>j. c1 \<le> j \<and> j < c' \<longrightarrow> \<not> sord_quad_match_inline (db ! j) (pat it))
          \<and> (if b then c' = length db else c' < length db \<and> sord_quad_match_inline (db ! c') (pat it))"
        by (simp split del: if_split cong: if_cong)
      then obtain c' b where
        r: "sord_iter_seek_match_loop db ?it1
              = Some (b, it\<lparr>cur := c', at_end := (if b then at_end it else False)\<rparr>)"
        and c': "c1 \<le> c'" "c' \<le> length db"
        and none: "\<forall>j. c1 \<le> j \<and> j < c' \<longrightarrow> \<not> sord_quad_match_inline (db ! j) (pat it)"
        and last: "if b then c' = length db else c' < length db \<and> sord_quad_match_inline (db ! c') (pat it)"
        by blast
      have "\<not> sord_quad_match_inline (db ! j) (pat it)" if "?c \<le> j" "j < c'" for j
      proof (cases "j = ?c")
        case True
        with nm show ?thesis by simp
      next
        case False
        show ?thesis
        proof (cases "j < c1")
          case True
          with that False skipped have "agree 3 (db ! j) (db ! ?c)" by simp
          from match_agree3[OF less.prems(3) this] nm show ?thesis by simp
        next
          case False
          with none that show ?thesis by simp
        qed
      qed
      with r c' c1 last show ?thesis
        unfolding eq
        by (intro exI[of _ c'] exI[of _ b]) auto
    qed
  qed
qed

lemma prefix_match_loop_iff:
  "\<forall>q \<in> set is. q < 4 \<Longrightarrow>
   prefix_match_loop e key is = Some (\<forall>q \<in> set is. sord_id_match (tup_get e q) (tup_get key q))"
  by (induction "is") auto

lemma prefix_match_iff:
  "n \<le> 4 \<Longrightarrow> prefix_match n e key = Some (\<forall>q < n. sord_id_match (tup_get e q) (tup_get key q))"
  using prefix_match_loop_iff[of "[0 ..< n]" e key]
  by (auto simp: prefix_match_def)

text \<open>
  \<open>sord_iter_seek_match_range\<close> stops at the first entry at or behind the cursor that
  matches, or ends the iteration at an entry outside the prefix.
\<close>

lemma sord_iter_seek_match_range_loop_spec:
  assumes sk: "skip_graphs it" and g: "tup_get (pat it) 3 = NULL" and n: "n_prefix it \<le> 4"
  shows "cur it < length db \<Longrightarrow>
     \<exists>c' b. sord_iter_seek_match_range_loop db it
          = Some (b, it\<lparr>cur := c', at_end := (if b then True else at_end it)\<rparr>)
       \<and> cur it \<le> c' \<and> c' \<le> length db
       \<and> (\<forall>j. cur it \<le> j \<and> j < c' \<longrightarrow> \<not> sord_quad_match_inline (db ! j) (pat it))
       \<and> (if b then c' = length db
                  \<or> (c' < length db \<and> \<not> sord_quad_match_inline (db ! c') (pat it)
                      \<and> \<not> (\<forall>q < n_prefix it. sord_id_match (tup_get (db ! c') q) (tup_get (pat it) q)))
           else c' < length db \<and> sord_quad_match_inline (db ! c') (pat it))"
  using sk g n
proof (induction "length db - cur it" arbitrary: it rule: less_induct)
  case less
  let ?c = "cur it"
  from less.prems have lt: "?c < length db" by simp
  show ?case
  proof (cases "sord_quad_match_inline (db ! ?c) (pat it)")
    case True
    with lt have "sord_iter_seek_match_range_loop db it = Some (False, it)"
      by (subst sord_iter_seek_match_range_loop.simps) (simp add: g_sequence_get_def)
    with True lt show ?thesis
      by (intro exI[of _ "?c"] exI[of _ False]) auto
  next
    case nm: False
    note pm = prefix_match_iff[OF less.prems(4), of "db ! ?c" "pat it"]
    show ?thesis
    proof (cases "\<forall>q < n_prefix it. sord_id_match (tup_get (db ! ?c) q) (tup_get (pat it) q)")
      case False
      with lt nm pm have "sord_iter_seek_match_range_loop db it = Some (True, it\<lparr>at_end := True\<rparr>)"
        by (subst sord_iter_seek_match_range_loop.simps) (simp add: g_sequence_get_def)
      with False lt nm show ?thesis
        by (intro exI[of _ "?c"] exI[of _ True]) auto
    next
      case pre: True
      from sord_iter_forward_skip[OF less.prems(2) lt] obtain c1 where
        f: "sord_iter_forward db it = Some (c1 = length db, it\<lparr>cur := c1\<rparr>)"
        and c1: "?c < c1" "c1 \<le> length db"
        and skipped: "\<forall>j. ?c < j \<and> j < c1 \<longrightarrow> agree 3 (db ! j) (db ! ?c)"
        by blast
      let ?it1 = "it\<lparr>cur := c1\<rparr>"
      have before: "\<not> sord_quad_match_inline (db ! j) (pat it)" if "?c \<le> j" "j < c1" for j
      proof (cases "j = ?c")
        case True
        with nm show ?thesis by simp
      next
        case False
        with that skipped have "agree 3 (db ! j) (db ! ?c)" by simp
        from match_agree3[OF less.prems(3) this] nm show ?thesis by simp
      qed
      show ?thesis
      proof (cases "c1 = length db")
        case True
        with lt nm pm pre f have
          "sord_iter_seek_match_range_loop db it = Some (True, ?it1\<lparr>at_end := True\<rparr>)"
          by (subst sord_iter_seek_match_range_loop.simps) (simp add: g_sequence_get_def)
        with True before lt show ?thesis
          by (intro exI[of _ c1] exI[of _ True]) auto
      next
        case False
        with c1 have c1lt: "c1 < length db" by simp
        have eq: "sord_iter_seek_match_range_loop db it = sord_iter_seek_match_range_loop db ?it1"
          using lt nm pm pre f False
          by (subst sord_iter_seek_match_range_loop.simps) (simp add: g_sequence_get_def)
        have "length db - cur ?it1 < length db - ?c"
          using c1 lt by simp
        from less.hyps[OF this] c1lt less.prems have
          "\<exists>c' b. sord_iter_seek_match_range_loop db ?it1
                = Some (b, it\<lparr>cur := c', at_end := (if b then True else at_end it)\<rparr>)
            \<and> c1 \<le> c' \<and> c' \<le> length db
            \<and> (\<forall>j. c1 \<le> j \<and> j < c' \<longrightarrow> \<not> sord_quad_match_inline (db ! j) (pat it))
            \<and> (if b then c' = length db
                  \<or> (c' < length db \<and> \<not> sord_quad_match_inline (db ! c') (pat it)
                      \<and> \<not> (\<forall>q < n_prefix it. sord_id_match (tup_get (db ! c') q) (tup_get (pat it) q)))
                else c' < length db \<and> sord_quad_match_inline (db ! c') (pat it))"
          by (simp split del: if_split cong: if_cong)
        then obtain c' b where
          r: "sord_iter_seek_match_range_loop db ?it1
                = Some (b, it\<lparr>cur := c', at_end := (if b then True else at_end it)\<rparr>)"
          and c': "c1 \<le> c'" "c' \<le> length db"
          and none: "\<forall>j. c1 \<le> j \<and> j < c' \<longrightarrow> \<not> sord_quad_match_inline (db ! j) (pat it)"
          and last: "if b then c' = length db
                  \<or> (c' < length db \<and> \<not> sord_quad_match_inline (db ! c') (pat it)
                      \<and> \<not> (\<forall>q < n_prefix it. sord_id_match (tup_get (db ! c') q) (tup_get (pat it) q)))
                else c' < length db \<and> sord_quad_match_inline (db ! c') (pat it)"
          by blast
        have "\<not> sord_quad_match_inline (db ! j) (pat it)" if "?c \<le> j" "j < c'" for j
          using that before[of j] none by (cases "j < c1") auto
        with r c' c1 last show ?thesis
          unfolding eq
          by (intro exI[of _ c'] exI[of _ b]) auto
      qed
    qed
  qed
qed

lemma match_agree_key:
  assumes "sord_quad_match_inline e key" and "bound3 e" and "n \<le> 3"
    and "\<forall>q < n. tup_get key q \<noteq> NULL"
  shows "agree n e key"
proof -
  have "tup_get e q = tup_get key q" if "q < n" for q
  proof -
    from that assms(3) have q: "q < 4" "q < 3" by simp_all
    with assms(1) have "sord_id_match (tup_get e q) (tup_get key q)"
      by (simp add: sord_quad_match_inline_iff)
    moreover from q(2) assms(2) have "tup_get e q \<noteq> NULL"
      by (auto simp: bound3_def less_Suc_eq eval_nat_numeral)
    ultimately show ?thesis
      using assms(4) that by (auto simp: sord_id_match_def)
  qed
  then show ?thesis by (simp add: agree_iff)
qed

lemma agree_key_prefix:
  "agree n e key \<Longrightarrow> q < n \<Longrightarrow> sord_id_match (tup_get e q) (tup_get key q)"
  by (simp add: agree_iff sord_id_match_def)

text \<open>
  One step of an iterator that rests on a matching entry, in an index that is sorted:
  it ends with no match left, or rests on the next entry that matches, and the matching
  entries it passes over agree with the one it left in their first three nodes.
\<close>

lemma sord_iter_next_step:
  assumes sorted: "index_sorted w db"
    and dist: "compare_orders w (concat (map nodes_of db))"
    and ents: "\<forall>e \<in> set db. bound3 e"
    and ok: "mode_ok it"
    and ne: "\<not> at_end it" and lt: "cur it < length db"
    and m: "sord_quad_match_inline (db ! cur it) (pat it)"
  shows "\<exists>b c'. sord_iter_next db it = Some (b, it\<lparr>cur := c', at_end := b\<rparr>)
           \<and> cur it < c' \<and> c' \<le> length db
           \<and> (\<forall>j. cur it < j \<and> j < c' \<and> sord_quad_match_inline (db ! j) (pat it)
                  \<longrightarrow> agree 3 (db ! j) (db ! cur it))
           \<and> (if b then (\<forall>j. c' \<le> j \<and> j < length db \<longrightarrow> \<not> sord_quad_match_inline (db ! j) (pat it))
               else c' < length db \<and> sord_quad_match_inline (db ! c') (pat it)
                    \<and> \<not> agree 3 (db ! c') (db ! cur it))"
proof -
  let ?c = "cur it" and ?key = "pat it"
  let ?M = "\<lambda>e. sord_quad_match_inline e ?key"
  from ok have sk: "skip_graphs it" and g: "tup_get ?key 3 = NULL"
    by (simp_all add: mode_ok_def)
  note between = agree_between[OF sorted dist]
  from sord_iter_forward_skip[OF sk lt] obtain c1 where
    f: "sord_iter_forward db it = Some (c1 = length db, it\<lparr>cur := c1\<rparr>)"
    and c1: "?c < c1" "c1 \<le> length db"
    and skipped: "\<forall>j. ?c < j \<and> j < c1 \<longrightarrow> agree 3 (db ! j) (db ! ?c)"
    and fresh: "c1 < length db \<longrightarrow> \<not> agree 3 (db ! c1) (db ! ?c)"
    by blast
  have bound: "bound3 (db ! j)" if "j < length db" for j
    using ents that by simp
  text \<open>A later entry that agrees with the current one on a prefix forces the entries between to agree.\<close>
  have no_later: "\<not> ?M (db ! j)"
    if n3: "n \<le> 3" and kb: "\<forall>q < n. tup_get ?key q \<noteq> NULL"
      and x: "?c < x" "x \<le> j" "j < length db" and nx: "\<not> agree n (db ! x) ?key" for n x j
  proof
    assume mj: "?M (db ! j)"
    from match_agree_key[OF mj bound[OF x(3)] n3 kb] have aj: "agree n (db ! j) ?key" .
    from match_agree_key[OF m bound[OF lt] n3 kb] have ac: "agree n (db ! ?c) ?key" .
    from ac aj have "agree n (db ! ?c) (db ! j)"
      by (auto intro: agree_trans agree_sym)
    from between[of ?c x j n] x n3 this have "agree n (db ! ?c) (db ! x)" by simp
    with ac have "agree n (db ! x) ?key"
      by (auto intro: agree_trans agree_sym)
    with nx show False by simp
  qed
  show ?thesis
  proof (cases "c1 = length db")
    case True
    with f ne have "sord_iter_next db it = Some (True, it\<lparr>cur := c1, at_end := True\<rparr>)"
      by (simp add: sord_iter_next_def)
    with True c1 skipped show ?thesis
      by (intro exI[of _ True] exI[of _ c1]) auto
  next
    case False
    with c1 have c1lt: "c1 < length db" by simp
    with fresh have nagree: "\<not> agree 3 (db ! c1) (db ! ?c)" by simp
    let ?it2 = "it\<lparr>cur := c1, at_end := False\<rparr>"
    show ?thesis
    proof (cases "mode it")
      case ALL_MODE
      with ok have "?key = (NULL, NULL, NULL, NULL)" by (simp add: mode_ok_def)
      then have "?M (db ! c1)"
        by (simp add: sord_quad_match_inline_def sord_id_match_def)
      moreover from ALL_MODE f ne False have "sord_iter_next db it = Some (False, ?it2)"
        by (simp add: sord_iter_next_def)
      ultimately show ?thesis
        using c1 c1lt skipped nagree
        by (intro exI[of _ False] exI[of _ c1]) auto
    next
      case SINGLE
      with ok have kb: "\<forall>q < 3. tup_get ?key q \<noteq> NULL"
        by (auto simp: mode_ok_def bound3_def less_Suc_eq eval_nat_numeral)
      have "\<not> agree 3 (db ! c1) ?key"
      proof
        assume "agree 3 (db ! c1) ?key"
        moreover from match_agree_key[OF m bound[OF lt] _ kb] have "agree 3 (db ! ?c) ?key" by simp
        ultimately have "agree 3 (db ! c1) (db ! ?c)"
          by (auto intro: agree_trans agree_sym)
        with nagree show False by simp
      qed
      from no_later[OF _ kb c1(1) _ _ this]
      have "\<forall>j. c1 \<le> j \<and> j < length db \<longrightarrow> \<not> ?M (db ! j)" by simp
      moreover from SINGLE f ne False have
        "sord_iter_next db it = Some (True, it\<lparr>cur := c1, at_end := True\<rparr>)"
        by (simp add: sord_iter_next_def)
      ultimately show ?thesis
        using c1 skipped
        by (intro exI[of _ True] exI[of _ c1]) auto
    next
      case RANGE
      with ok have n3: "n_prefix it \<le> 3"
        and kq: "\<forall>q < 4. (q < n_prefix it) = (tup_get ?key q \<noteq> NULL)"
        by (simp_all add: mode_ok_def list_all_iff)
      have kb: "\<forall>q < n_prefix it. tup_get ?key q \<noteq> NULL"
      proof (intro allI impI)
        fix q assume q: "q < n_prefix it"
        with n3 have "q < 4" by simp
        with kq q show "tup_get ?key q \<noteq> NULL" by blast
      qed
      let ?okp = "\<forall>q < n_prefix it. sord_id_match (tup_get (db ! c1) q) (tup_get ?key q)"
      from n3 have pm: "prefix_match (n_prefix it) (db ! c1) ?key = Some ?okp"
        by (intro prefix_match_iff) simp
      have iff: "?okp = ?M (db ! c1)"
      proof
        assume p: ?okp
        have "sord_id_match (tup_get (db ! c1) q) (tup_get ?key q)" if "q < 4" for q
        proof (cases "q < n_prefix it")
          case True
          with p show ?thesis by simp
        next
          case False
          with kq that have "tup_get ?key q = NULL" by auto
          then show ?thesis by (simp add: sord_id_match_def)
        qed
        then show "?M (db ! c1)" by (simp add: sord_quad_match_inline_iff)
      next
        assume "?M (db ! c1)"
        with n3 show ?okp by (auto simp: sord_quad_match_inline_iff)
      qed
      from RANGE f ne False c1lt pm have
        nx: "sord_iter_next db it = Some (\<not> ?okp, it\<lparr>cur := c1, at_end := \<not> ?okp\<rparr>)"
        by (simp add: sord_iter_next_def g_sequence_get_def)
      show ?thesis
      proof (cases ?okp)
        case True
        with nx iff c1 c1lt skipped nagree show ?thesis
          by (intro exI[of _ False] exI[of _ c1]) auto
      next
        case False
        have "\<not> agree (n_prefix it) (db ! c1) ?key"
          using False agree_key_prefix[of "n_prefix it" "db ! c1" ?key] by blast
        from no_later[OF n3 kb c1(1) _ _ this]
        have "\<forall>j. c1 \<le> j \<and> j < length db \<longrightarrow> \<not> ?M (db ! j)" by simp
        with nx False c1 skipped show ?thesis
          by (intro exI[of _ True] exI[of _ c1]) auto
      qed
    next
      case FILTER_RANGE
      with ok have n3: "n_prefix it \<le> 3"
        and kb: "\<forall>q < n_prefix it. tup_get ?key q \<noteq> NULL"
        by (simp_all add: mode_ok_def list_all_iff)
      from n3 have n4: "n_prefix ?it2 \<le> 4" by simp
      from sord_iter_seek_match_range_loop_spec[of ?it2 db] sk g n4 c1lt
      obtain c2 b where
        r: "sord_iter_seek_match_range_loop db ?it2 = Some (b, it\<lparr>cur := c2, at_end := b\<rparr>)"
        and c2: "c1 \<le> c2" "c2 \<le> length db"
        and none: "\<forall>j. c1 \<le> j \<and> j < c2 \<longrightarrow> \<not> ?M (db ! j)"
        and last: "if b then c2 = length db
                  \<or> (c2 < length db \<and> \<not> ?M (db ! c2)
                      \<and> \<not> (\<forall>q < n_prefix it. sord_id_match (tup_get (db ! c2) q) (tup_get ?key q)))
                else c2 < length db \<and> ?M (db ! c2)"
        by (auto split: if_splits)
      from FILTER_RANGE f ne False r have
        nx: "sord_iter_next db it = Some (b, it\<lparr>cur := c2, at_end := b\<rparr>)"
        by (simp add: sord_iter_next_def sord_iter_seek_match_range_def)
      have passed: "agree 3 (db ! j) (db ! ?c)" if "?c < j" "j < c2" "?M (db ! j)" for j
        using that skipped none by (cases "j < c1") auto
      show ?thesis
      proof (cases b)
        case True
        have "\<not> ?M (db ! j)" if "c2 \<le> j" "j < length db" for j
        proof -
          from that c2 have "c2 < length db" by simp
          with last True have "\<not> (\<forall>q < n_prefix it. sord_id_match (tup_get (db ! c2) q) (tup_get ?key q))"
            by auto
          then have "\<not> agree (n_prefix it) (db ! c2) ?key"
            using agree_key_prefix[of "n_prefix it" "db ! c2" ?key] by blast
          from no_later[OF n3 kb _ that this] c1 c2 show ?thesis by simp
        qed
        with nx True c1 c2 passed show ?thesis
          by (intro exI[of _ True] exI[of _ c2]) auto
      next
        case False
        with last have l: "c2 < length db" "?M (db ! c2)" by simp_all
        have "\<not> agree 3 (db ! c2) (db ! ?c)"
        proof
          assume "agree 3 (db ! c2) (db ! ?c)"
          then have "agree 3 (db ! ?c) (db ! c2)" by (rule agree_sym)
          from between[of ?c c1 c2 3] c1 c2 l this have "agree 3 (db ! ?c) (db ! c1)" by simp
          with nagree show False by (auto dest: agree_sym)
        qed
        with nx False c1 c2 l passed show ?thesis
          by (intro exI[of _ False] exI[of _ c2]) auto
      qed
    next
      case FILTER_ALL
      let ?it3 = "it\<lparr>cur := c1, at_end := True\<rparr>"
      from sord_iter_seek_match_loop_spec[of ?it3 db] sk g c1
      obtain c2 b where
        r: "sord_iter_seek_match_loop db ?it3 = Some (b, it\<lparr>cur := c2, at_end := b\<rparr>)"
        and c2: "c1 \<le> c2" "c2 \<le> length db"
        and none: "\<forall>j. c1 \<le> j \<and> j < c2 \<longrightarrow> \<not> ?M (db ! j)"
        and last: "if b then c2 = length db else c2 < length db \<and> ?M (db ! c2)"
        by (auto split: if_splits)
      from FILTER_ALL f ne False r have
        nx: "sord_iter_next db it = Some (b, it\<lparr>cur := c2, at_end := b\<rparr>)"
        by (simp add: sord_iter_next_def sord_iter_seek_match_def)
      have passed: "agree 3 (db ! j) (db ! ?c)" if "?c < j" "j < c2" "?M (db ! j)" for j
        using that skipped none by (cases "j < c1") auto
      show ?thesis
      proof (cases b)
        case True
        with last have "c2 = length db" by simp
        with nx True c1 c2 passed show ?thesis
          by (intro exI[of _ True] exI[of _ c2]) auto
      next
        case False
        with last have l: "c2 < length db" "?M (db ! c2)" by simp_all
        have "\<not> agree 3 (db ! c2) (db ! ?c)"
        proof
          assume "agree 3 (db ! c2) (db ! ?c)"
          then have "agree 3 (db ! ?c) (db ! c2)" by (rule agree_sym)
          from between[of ?c c1 c2 3] c1 c2 l this have "agree 3 (db ! ?c) (db ! c1)" by simp
          with nagree show False by (auto dest: agree_sym)
        qed
        with nx False c1 c2 l passed show ?thesis
          by (intro exI[of _ False] exI[of _ c2]) auto
      qed
    qed
  qed
qed

lemma mode_ok_moved [simp]: "mode_ok (it\<lparr>cur := c, at_end := b\<rparr>) = mode_ok it"
  by (simp add: mode_ok_def)

text \<open>
  The quads collected from an iterator that rests on a matching entry: each is a matching
  entry at or behind the cursor, every matching entry from the cursor on agrees with one
  of them in its first three nodes, and no two of them agree in their first three nodes.
\<close>

lemma sord_iter_collect_spec:
  assumes sorted: "index_sorted w db"
    and dist: "compare_orders w (concat (map nodes_of db))"
    and ents: "\<forall>e \<in> set db. bound3 e"
  shows "mode_ok it \<Longrightarrow> \<not> at_end it \<Longrightarrow> cur it < length db \<Longrightarrow>
     sord_quad_match_inline (db ! cur it) (pat it) \<Longrightarrow>
     \<exists>es. sord_iter_collect db it
            = Some (map (\<lambda>e. sord_iter_get_loop (ordering it) e (NULL, NULL, NULL, NULL)) es)
        \<and> (\<forall>e \<in> set es. \<exists>pos. cur it \<le> pos \<and> pos < length db \<and> e = db ! pos
               \<and> sord_quad_match_inline e (pat it))
        \<and> (\<forall>j. cur it \<le> j \<and> j < length db \<and> sord_quad_match_inline (db ! j) (pat it)
               \<longrightarrow> (\<exists>e \<in> set es. agree 3 e (db ! j)))
        \<and> distinct (map (\<lambda>e. (tup_get e 0, tup_get e 1, tup_get e 2)) es)"
proof (induction "length db - cur it" arbitrary: it rule: less_induct)
  case less
  let ?c = "cur it" and ?key = "pat it"
  let ?M = "\<lambda>e. sord_quad_match_inline e ?key"
  let ?out = "\<lambda>e. sord_iter_get_loop (ordering it) e (NULL, NULL, NULL, NULL)"
  let ?f3 = "\<lambda>e. (tup_get e 0, tup_get e 1, tup_get e 2)"
  note lt = less.prems(3) and m = less.prems(4)
  from sord_iter_next_step[OF sorted dist ents less.prems] obtain b c' where
    nx: "sord_iter_next db it = Some (b, it\<lparr>cur := c', at_end := b\<rparr>)"
    and c': "?c < c'" "c' \<le> length db"
    and passed: "\<forall>j. ?c < j \<and> j < c' \<and> ?M (db ! j) \<longrightarrow> agree 3 (db ! j) (db ! ?c)"
    and last: "if b then (\<forall>j. c' \<le> j \<and> j < length db \<longrightarrow> \<not> ?M (db ! j))
               else c' < length db \<and> ?M (db ! c') \<and> \<not> agree 3 (db ! c') (db ! ?c)"
    by blast
  let ?it' = "it\<lparr>cur := c', at_end := b\<rparr>"
  have get: "sord_iter_get db it = Some (?out (db ! ?c))"
    using lt by (simp add: sord_iter_get_def g_sequence_get_def)
  have unfold: "sord_iter_collect db it = map_option ((#) (?out (db ! ?c))) (sord_iter_collect db ?it')"
    using less.prems(2) get nx by (subst sord_iter_collect.simps) simp
  show ?case
  proof (cases b)
    case True
    then have "sord_iter_collect db ?it' = Some []"
      by (subst sord_iter_collect.simps) simp
    with unfold have r: "sord_iter_collect db it = Some (map ?out [db ! ?c])" by simp
    have "\<exists>e \<in> set [db ! ?c]. agree 3 e (db ! j)" if "?c \<le> j" "j < length db" "?M (db ! j)" for j
    proof (cases "j = ?c")
      case True
      then show ?thesis by (simp add: agree_refl)
    next
      case False
      with that have "?c < j" by simp
      moreover from last \<open>b\<close> that have "j < c'" by (auto simp: not_le[symmetric])
      ultimately have "agree 3 (db ! j) (db ! ?c)" using passed that by simp
      then show ?thesis by (simp add: agree_sym)
    qed
    with r lt m show ?thesis
      by (intro exI[of _ "[db ! ?c]"]) auto
  next
    case False
    with last have l: "c' < length db" "?M (db ! c')" "\<not> agree 3 (db ! c') (db ! ?c)" by simp_all
    have "length db - cur ?it' < length db - ?c"
      using c' lt by simp
    from less.hyps[OF this] less.prems(1) False l obtain es where
      r: "sord_iter_collect db ?it' = Some (map ?out es)"
      and sound: "\<forall>e \<in> set es. \<exists>pos. c' \<le> pos \<and> pos < length db \<and> e = db ! pos \<and> ?M e"
      and complete: "\<forall>j. c' \<le> j \<and> j < length db \<and> ?M (db ! j) \<longrightarrow> (\<exists>e \<in> set es. agree 3 e (db ! j))"
      and dis: "distinct (map ?f3 es)"
      by auto
    from unfold r have r': "sord_iter_collect db it = Some (map ?out (db ! ?c # es))" by simp
    have s': "\<forall>e \<in> set (db ! ?c # es). \<exists>pos. ?c \<le> pos \<and> pos < length db \<and> e = db ! pos \<and> ?M e"
    proof
      fix e assume "e \<in> set (db ! ?c # es)"
      then consider "e = db ! ?c" | "e \<in> set es" by auto
      then show "\<exists>pos. ?c \<le> pos \<and> pos < length db \<and> e = db ! pos \<and> ?M e"
      proof cases
        case 1
        with lt m show ?thesis by (intro exI[of _ ?c]) simp
      next
        case 2
        with sound obtain pos where "c' \<le> pos" "pos < length db" "e = db ! pos" "?M e" by blast
        with c' show ?thesis by (intro exI[of _ pos]) simp
      qed
    qed
    have c'': "\<exists>e \<in> set (db ! ?c # es). agree 3 e (db ! j)"
      if "?c \<le> j" "j < length db" "?M (db ! j)" for j
    proof (cases "j < c'")
      case True
      show ?thesis
      proof (cases "j = ?c")
        case True
        then show ?thesis by (simp add: agree_refl)
      next
        case False
        with that True passed have "agree 3 (db ! j) (db ! ?c)" by simp
        then show ?thesis by (simp add: agree_sym)
      qed
    next
      case False
      with complete that show ?thesis by auto
    qed
    have "?f3 (db ! ?c) \<notin> set (map ?f3 es)"
    proof
      assume "?f3 (db ! ?c) \<in> set (map ?f3 es)"
      then obtain e where e: "e \<in> set es" "?f3 e = ?f3 (db ! ?c)" by auto
      with sound obtain pos where pos: "c' \<le> pos" "pos < length db" "e = db ! pos" by blast
      from e(2) pos(3) have "agree 3 (db ! ?c) (db ! pos)" by (simp add: agree3_iff)
      from agree_between[OF sorted dist _ pos(1,2) _ this] c' have "agree 3 (db ! ?c) (db ! c')"
        by simp
      with l(3) show False by (auto dest: agree_sym)
    qed
    with dis have d': "distinct (map ?f3 (db ! ?c # es))" by simp
    from r' s' c'' d' show ?thesis
      by (intro exI[of _ "db ! ?c # es"]) blast
  qed
qed

text \<open>
  What \<open>index_lower_bound\<close> returns in a sorted index, for any key: a position with no
  match before it; and where its entry does not match, no entry before the position of
  the search matches, and it is that position (or the last entry, when the search ran to
  the end).
\<close>

lemma index_lower_bound_spec:
  assumes sorted: "index_sorted w db"
    and dist: "compare_orders w (concat (map nodes_of (key # db)))"
    and bw: "\<forall>e \<in> set db. sord_quad_match_inline key e \<longrightarrow> bound_where key e"
  shows "\<exists>u c0. g_sequence_search (sord_quad_compare w) db key = Some u
           \<and> index_lower_bound w db key = Some c0
           \<and> u \<le> length db \<and> c0 \<le> u \<and> (db \<noteq> [] \<longrightarrow> c0 < length db)
           \<and> (u < length db \<longrightarrow> (\<exists>c. sord_quad_compare w (db ! u) key = Some c \<and> 0 < c))
           \<and> (\<forall>j < c0. \<not> sord_quad_match_inline key (db ! j))
           \<and> (c0 < length db \<and> \<not> sord_quad_match_inline key (db ! c0) \<longrightarrow>
                 (\<forall>j < u. \<not> sord_quad_match_inline key (db ! j))
                 \<and> (c0 = u \<or> (u = length db \<and> Suc c0 = u)))"
proof -
  let ?m = "\<lambda>j. sord_quad_match_inline key (db ! j)"
  have dist2: "compare_orders w (nodes_of (db ! j) @ nodes_of key)" if "j < length db" for j
    using that by (intro compare_orders_mono[OF dist]) auto
  have "\<forall>e \<in> set db. sord_quad_compare w e key \<noteq> None"
  proof
    fix e assume "e \<in> set db"
    then have "compare_orders w (nodes_of e @ nodes_of key)"
      by (intro compare_orders_mono[OF dist]) auto
    from sord_quad_compare_returns[OF this] show "sord_quad_compare w e key \<noteq> None" by auto
  qed
  from g_sequence_search_returns[of db "sord_quad_compare w" key, OF this] obtain u where
    u: "g_sequence_search (sord_quad_compare w) db key = Some u" by blast
  from g_sequence_search_spec[OF u] have ule: "u \<le> length db"
    and below: "\<And>j. j < u \<Longrightarrow> \<exists>c. sord_quad_compare w (db ! j) key = Some c \<and> c \<le> 0"
    and at: "u < length db \<longrightarrow> (\<exists>c. sord_quad_compare w (db ! u) key = Some c \<and> 0 < c)"
    by auto
  have f1: "db ! j = key" if "j < u" "?m j" for j
  proof -
    from that ule have jl: "j < length db" by simp
    with bw that(2) have "bound_where key (db ! j)" by simp
    from match_compare[OF dist2[OF jl] this that(2)] below[OF that(1)] show ?thesis by auto
  qed
  have f2: "db ! i = key" if "j < u" "db ! j = key" "j \<le> i" "i < u" for i j
  proof (cases "i = j")
    case True
    with that show ?thesis by simp
  next
    case False
    with that ule have "j < i" "i < length db" by simp_all
    from index_sortedD[OF sorted this] that(2) obtain d where
      d: "sord_quad_compare w key (db ! i) = Some d" "d \<le> 0" by auto
    from below[OF that(4)] obtain c where
      c: "sord_quad_compare w (db ! i) key = Some c" "c \<le> 0" by auto
    from compare_antisym[OF dist2[OF \<open>i < length db\<close>] c d] show ?thesis .
  qed
  have before: "?m (u - 1)" if "j < u" "?m j" for j
    using f2[OF that(1) f1[OF that], of "u - 1"] that(1)
    by (simp add: sord_quad_match_inline_refl)
  text \<open>The loop, started at a match \<open>s\<close> not behind the search position.\<close>
  have from_match: ?thesis
    if s: "s < length db" "?m s" "s \<le> u"
      and eq: "index_lower_bound w db key = index_lower_bound_loop db key s" for s
  proof -
    from index_lower_bound_loop_run[OF s(1,2)] obtain r where
      r: "index_lower_bound_loop db key s = Some r" "r \<le> s"
        "\<forall>j. r \<le> j \<and> j \<le> s \<longrightarrow> ?m j" "r = 0 \<or> \<not> ?m (r - 1)" by blast
    have "\<not> ?m j" if "j < r" for j
    proof
      assume mj: "?m j"
      from that r(2) s(3) have ju: "j < u" by simp
      from that r(2) s(3) have "j \<le> r - 1" "r - 1 < u" by simp_all
      from f2[OF ju f1[OF ju mj] this] have "?m (r - 1)"
        by (simp add: sord_quad_match_inline_refl)
      with r(4) that show False by simp
    qed
    moreover from r(2,3) have "?m r" by simp
    ultimately show ?thesis
      using u eq r(1,2) s(1,3) ule at
      by (intro exI[of _ u] exI[of _ r]) auto
  qed
  show ?thesis
  proof (cases "u = 0")
    case True
    with u have "index_lower_bound w db key = Some 0"
      by (simp add: index_lower_bound_def index_lower_bound_iter_def g_sequence_iter_is_begin_def)
    with True u at show ?thesis
      by (intro exI[of _ 0] exI[of _ 0]) auto
  next
    case False
    define i where "i = (if u < length db then u else u - 1)"
    from False ule have il: "i < length db" "i \<le> u"
      by (auto simp: i_def)
    have unf: "index_lower_bound w db key =
        (if \<not> ?m i then (if \<not> ?m (i - 1) then Some i else index_lower_bound_loop db key (i - 1))
         else index_lower_bound_loop db key i)"
      using False u ule il
      by (auto simp: index_lower_bound_def index_lower_bound_iter_def i_def Let_def
          g_sequence_iter_is_begin_def g_sequence_iter_is_end_def g_sequence_get_def
          g_sequence_iter_prev_def)
    show ?thesis
    proof (cases "?m i")
      case True
      with unf il show ?thesis by (intro from_match[of i]) simp_all
    next
      case nm: False
      show ?thesis
      proof (cases "?m (i - 1)")
        case True
        with unf nm il show ?thesis by (intro from_match[of "i - 1"]) simp_all
      next
        case nm1: False
        from unf nm nm1 have r: "index_lower_bound w db key = Some i" by simp
        have none: "\<not> ?m j" if "j < u" for j
        proof
          assume "?m j"
          from before[OF that this] have "?m (u - 1)" .
          with nm nm1 ule False show False
            by (auto simp: i_def split: if_splits)
        qed
        have "i = u \<or> (u = length db \<and> Suc i = u)"
          using False ule by (auto simp: i_def)
        moreover have "\<forall>j < i. \<not> ?m j"
          using none il by simp
        ultimately show ?thesis
          using u r il ule at none
          by (intro exI[of _ u] exI[of _ i]) auto
      qed
    qed
  qed
qed

text \<open>
  An entry that compares greater than the key, but not greater than an entry that agrees
  with the key on its first \<open>n\<close> positions, agrees with the key on them itself.
\<close>

lemma agree_from_greater:
  assumes dist: "compare_orders w (nodes_of e @ nodes_of key)"
    and n: "n \<le> 4"
    and a': "agree n e' key"
    and gt: "sord_quad_compare w e key = Some c" "0 < c"
    and le: "sord_quad_compare w e e' = Some d" "d \<le> 0"
  shows "agree n e key"
proof -
  from sord_quad_compare_first[OF gt(1)] gt(2) obtain p where p: "p < 4"
    and before: "\<forall>q < p. sord_id_compare w (tup_get e q) (tup_get key q) = Some 0"
    and at: "sord_id_compare w (tup_get e p) (tup_get key p) = Some c"
    by (auto split: if_splits simp: le_less)
  have np: "n \<le> p"
  proof (rule ccontr)
    assume "\<not> n \<le> p"
    then have pn: "p < n" by simp
    have same: "tup_get e' q = tup_get key q" if "q \<le> p" for q
      using a' that pn by (simp add: agree_iff)
    have "\<forall>q < p. sord_id_compare w (tup_get e q) (tup_get e' q) = Some 0"
      using before same by simp
    moreover have "sord_id_compare w (tup_get e p) (tup_get e' p) = Some c"
      using at same[of p] by simp
    ultimately have "sord_quad_compare w e e' = Some c"
      using p gt(2) by (intro sord_quad_compare_decided[of p]) auto
    with le gt(2) show False by simp
  qed
  have "tup_get e q = tup_get key q" if "q < n" for q
  proof -
    from that n have "q < 4" by simp
    then have "tup_get e q \<in> set (nodes_of e @ nodes_of key)"
      "tup_get key q \<in> set (nodes_of e @ nodes_of key)"
      by (simp_all add: tup_get_nodes_of)
    from compare_ordersD[OF dist this] before that np show ?thesis by auto
  qed
  then show ?thesis by (simp add: agree_iff)
qed

section \<open>Quads and the keys of an index\<close>

lemma triple_order_cases:
  assumes "ord < GSPO"
  obtains "ord = 0" | "ord = 1" | "ord = 2" | "ord = 3" | "ord = 4" | "ord = 5"
  using assms by (auto simp: less_Suc_eq eval_nat_numeral)

lemma orderings_triple [simp]:
  "orderings 0 = (0, 1, 2, 3)" "orderings 1 = (0, 2, 1, 3)" "orderings 2 = (2, 1, 0, 3)"
  "orderings 3 = (2, 0, 1, 3)" "orderings 4 = (1, 0, 2, 3)" "orderings 5 = (1, 2, 0, 3)"
  "orderings (Suc 0) = (0, 2, 1, 3)"
  by (simp_all add: orderings_def)

lemma sord_iter_get_permute:
  assumes "ord < GSPO"
  shows "sord_iter_get_loop (orderings ord) (permute (orderings ord) q) (NULL, NULL, NULL, NULL) = q"
  using assms by (cases q; elim triple_order_cases) simp_all

lemma nodes_of_permute:
  assumes "ord < GSPO"
  shows "set (nodes_of (permute (orderings ord) q)) = set (nodes_of q)"
  using assms by (cases q; elim triple_order_cases) (auto simp: nodes_of_def upt_TUP_LEN)

lemma graph_permute:
  assumes "ord < GSPO"
  shows "tup_get (permute (orderings ord) q) 3 = tup_get q 3"
  using assms by (cases q; elim triple_order_cases) simp_all

lemma bound3_permute:
  assumes "ord < GSPO"
  shows "bound3 (permute (orderings ord) q) = bound3 q"
  using assms by (cases q; elim triple_order_cases) (auto simp: bound3_def)

lemma agree3_permute:
  assumes "ord < GSPO"
  shows "agree 3 (permute (orderings ord) q) (permute (orderings ord) q') = agree 3 q q'"
  using assms by (cases q; cases q'; elim triple_order_cases) (auto simp: agree3_iff)

lemma agree3_triple_of: "agree 3 q q' = (triple_of q = triple_of q')"
  by (auto simp: agree3_iff triple_of_def)

lemma match_permute:
  assumes "ord < GSPO" and "bound3 q" and "tup_get p 3 = NULL"
  shows "sord_quad_match_inline (permute (orderings ord) q) (permute (orderings ord) p)
         = pattern_match p q"
  using assms
  by (cases q; cases p; elim triple_order_cases)
     (auto simp: sord_quad_match_inline_def sord_id_match_def pattern_match_def bound3_def
        upt_TUP_LEN)

section \<open>Where a search starts\<close>

text \<open>
  Where \<open>sord_find\<close> starts in a sorted index of a triple order, for a pattern without a
  graph and a mode that fits its key: it returns no iterator, or an iterator that has
  ended, only when no entry matches; otherwise the iterator rests on the first entry
  that matches.
\<close>

lemma sord_find_start:
  fixes p :: SordQuad
  defines "it0 \<equiv> \<lambda>ord key m n. \<lparr>order = ord, cur = 0, pat = key, ordering = orderings ord,
      mode = m, n_prefix = n, at_end = False, skip_graphs = True\<rparr>"
  assumes sorted: "index_sorted w db"
    and dist: "compare_orders w (concat (map nodes_of (key # db)))"
    and ents: "\<forall>e \<in> set db. bound3 e"
    and ord: "ord < GSPO"
    and key: "key = permute (orderings ord) p"
    and m: "m \<noteq> ALL_MODE"
    and ok: "mode_ok (it0 ord key m n)"
  shows "\<exists>r. (case index_lower_bound w db key of
               None \<Rightarrow> None
             | Some c \<Rightarrow>
                 if g_sequence_iter_is_end db c then Some None
                 else (case g_sequence_get db c of
                     None \<Rightarrow> None
                   | Some k \<Rightarrow>
                       if (m = RANGE \<or> m = SINGLE) \<and> \<not> sord_quad_match_inline key k
                       then Some None
                       else map_option Some (sord_iter_new db c p ord m n))) = Some r
           \<and> (case r of
                 None \<Rightarrow> \<forall>j < length db. \<not> sord_quad_match_inline (db ! j) key
               | Some it \<Rightarrow> \<exists>c b. it = (it0 ord key m n)\<lparr>cur := c, at_end := b\<rparr>
                   \<and> (if b then \<forall>j < length db. \<not> sord_quad_match_inline (db ! j) key
                       else c < length db \<and> sord_quad_match_inline (db ! c) key
                         \<and> (\<forall>j < c. \<not> sord_quad_match_inline (db ! j) key)))"
    (is "\<exists>r. ?body = Some r \<and> ?post r")
proof -
  let ?it = "it0 ord key m n"
  let ?m = "\<lambda>j. sord_quad_match_inline key (db ! j)"
  have sym: "sord_quad_match_inline (db ! j) key = ?m j" for j
    by (rule sord_quad_match_inline_sym)
  from ok have g: "tup_get key 3 = NULL"
    by (simp add: mode_ok_def it0_def)
  have bw: "\<forall>e \<in> set db. bound_where key e"
  proof
    fix e assume "e \<in> set db"
    with ents have "bound3 e" by simp
    with g show "bound_where key e"
      by (auto simp: bound_where_def bound3_def list_all_iff less_Suc_eq eval_nat_numeral)
  qed
  have dist2: "compare_orders w (nodes_of (db ! j) @ nodes_of key)" if "j < length db" for j
    using that by (intro compare_orders_mono[OF dist]) auto
  have distdb: "compare_orders w (concat (map nodes_of db))"
    by (intro compare_orders_mono[OF dist]) auto
  from bw have "\<forall>e \<in> set db. sord_quad_match_inline key e \<longrightarrow> bound_where key e"
    by simp
  from index_lower_bound_spec[OF sorted dist this] obtain u c0 where
    lb: "index_lower_bound w db key = Some c0"
    and ule: "u \<le> length db" and c0u: "c0 \<le> u"
    and c0l: "db \<noteq> [] \<longrightarrow> c0 < length db"
    and at: "u < length db \<longrightarrow> (\<exists>c. sord_quad_compare w (db ! u) key = Some c \<and> 0 < c)"
    and before: "\<forall>j < c0. \<not> ?m j"
    and nomatch: "c0 < length db \<and> \<not> ?m c0 \<longrightarrow>
        (\<forall>j < u. \<not> ?m j) \<and> (c0 = u \<or> (u = length db \<and> Suc c0 = u))"
    by blast
  have new: "it0 ord key m n \<lparr>cur := c\<rparr> =
      \<lparr>order = ord, cur = c, pat = permute (orderings ord) p, ordering = orderings ord,
       mode = m, n_prefix = n, at_end = False, skip_graphs = (ord < GSPO)\<rparr>" for c
    using ord key by (simp add: it0_def)
  have itf [simp]: "cur (?it\<lparr>cur := c\<rparr>) = c" "pat (?it\<lparr>cur := c\<rparr>) = key"
    "skip_graphs (?it\<lparr>cur := c\<rparr>)" "\<not> at_end (?it\<lparr>cur := c\<rparr>)"
    "n_prefix (?it\<lparr>cur := c\<rparr>) = n" "mode (?it\<lparr>cur := c\<rparr>) = m" for c
    by (simp_all add: it0_def)
  show ?thesis
  proof (cases "db = []")
    case True
    with lb c0u ule show ?thesis
      by (simp add: g_sequence_iter_is_end_def)
  next
    case ne: False
    with c0l have c0: "c0 < length db" by simp
    then have get: "g_sequence_get db c0 = Some (db ! c0)" "\<not> g_sequence_iter_is_end db c0"
      by (simp_all add: g_sequence_get_def g_sequence_iter_is_end_def)
    have body: "?body = (if (m = RANGE \<or> m = SINGLE) \<and> \<not> ?m c0 then Some None
        else map_option Some (sord_iter_new db c0 p ord m n))"
      using lb get by simp
    have inew: "sord_iter_new db c0 p ord m n =
       (case m of
           FILTER_RANGE \<Rightarrow> map_option snd (sord_iter_seek_match_range db (?it\<lparr>cur := c0\<rparr>))
         | FILTER_ALL \<Rightarrow> map_option snd (sord_iter_seek_match db (?it\<lparr>cur := c0\<rparr>))
         | _ \<Rightarrow> if ?m c0 then Some (?it\<lparr>cur := c0\<rparr>) else None)"
      using get ord key by (cases m) (simp_all add: sord_iter_new_def it0_def sord_quad_match_inline_sym[of "db ! c0"])
    show ?thesis
    proof (cases "?m c0")
      case True
      have "sord_iter_new db c0 p ord m n = Some (?it\<lparr>cur := c0, at_end := False\<rparr>)"
      proof (cases m)
        case FILTER_RANGE
        have l: "sord_iter_seek_match_range_loop db (?it\<lparr>cur := c0\<rparr>) = Some (False, ?it\<lparr>cur := c0\<rparr>)"
          using True get by (subst sord_iter_seek_match_range_loop.simps) (simp add: sym)
        show ?thesis
          unfolding inew using FILTER_RANGE l by (simp add: sord_iter_seek_match_range_def it0_def)
      next
        case FILTER_ALL
        have l: "sord_iter_seek_match_loop db (?it\<lparr>cur := c0, at_end := True\<rparr>)
            = Some (False, ?it\<lparr>cur := c0\<rparr>)"
          using True get by (subst sord_iter_seek_match_loop.simps) (simp add: sym it0_def)
        show ?thesis
          unfolding inew using FILTER_ALL l by (simp add: sord_iter_seek_match_def it0_def)
      next
        case ALL_MODE
        with m show ?thesis by simp
      next
        case SINGLE
        show ?thesis
          unfolding inew using SINGLE True by (simp add: it0_def)
      next
        case RANGE
        show ?thesis
          unfolding inew using RANGE True by (simp add: it0_def)
      qed
      then have "?body = Some (Some (?it\<lparr>cur := c0, at_end := False\<rparr>))"
        using body True by simp
      moreover have "?post (Some (?it\<lparr>cur := c0, at_end := False\<rparr>))"
        using True c0 before by (auto simp: sym intro!: exI[of _ c0] exI[of _ False])
      ultimately show ?thesis by blast
    next
      case nm: False
      with nomatch c0 have nou: "\<forall>j < u. \<not> ?m j"
        and cu: "c0 = u \<or> (u = length db \<and> Suc c0 = u)" by simp_all
      show ?thesis
      proof (cases "m = RANGE \<or> m = SINGLE")
        case True
        with ok g have pk: "prefix_key key"
          by (auto simp: mode_ok_def it0_def prefix_key_def bound3_def list_all_iff
              less_Suc_eq eval_nat_numeral)
        have "\<not> ?m j" if j: "j < length db" for j
        proof
          assume mj: "?m j"
          with nou have uj: "u \<le> j" by (meson not_le)
          with j cu have "c0 = u" "u < length db" by auto
          with nm mj have "u < j" using uj by (cases "u = j") auto
          from at \<open>u < length db\<close> obtain c where
            c: "sord_quad_compare w (db ! u) key = Some c" "0 < c" by blast
          from index_sortedD[OF sorted \<open>u < j\<close> j] obtain d where
            d: "sord_quad_compare w (db ! u) (db ! j) = Some d" "d \<le> 0" by blast
          from bw j have "bound_where key (db ! j)" by simp
          from match_between[OF pk dist2[OF \<open>u < length db\<close>] this mj c d]
          have "?m u" .
          with nm \<open>c0 = u\<close> show False by simp
        qed
        with body True nm show ?thesis by (simp add: sym)
      next
        case False
        with m have "m = FILTER_RANGE \<or> m = FILTER_ALL" by (cases m) simp_all
        then show ?thesis
        proof
          assume fa: "m = FILTER_ALL"
          let ?x = "?it\<lparr>cur := c0, at_end := True\<rparr>"
          have "\<exists>c' b. sord_iter_seek_match_loop db ?x
                   = Some (b, ?x\<lparr>cur := c', at_end := (if b then at_end ?x else False)\<rparr>)
              \<and> cur ?x \<le> c' \<and> c' \<le> length db
              \<and> (\<forall>j. cur ?x \<le> j \<and> j < c' \<longrightarrow> \<not> sord_quad_match_inline (db ! j) (pat ?x))
              \<and> (if b then c' = length db
                  else c' < length db \<and> sord_quad_match_inline (db ! c') (pat ?x))"
            using g c0 by (intro sord_iter_seek_match_loop_spec) (simp_all add: it0_def)
          then obtain c' b where
            r0: "sord_iter_seek_match_loop db ?x
                   = Some (b, ?x\<lparr>cur := c', at_end := (if b then at_end ?x else False)\<rparr>)"
            and c'0: "cur ?x \<le> c'" "c' \<le> length db"
            and skipped0: "\<forall>j. cur ?x \<le> j \<and> j < c' \<longrightarrow> \<not> sord_quad_match_inline (db ! j) (pat ?x)"
            and stop0: "if b then c' = length db
                  else c' < length db \<and> sord_quad_match_inline (db ! c') (pat ?x)"
            by blast
          have "?x\<lparr>cur := c', at_end := (if b then at_end ?x else False)\<rparr> = ?it\<lparr>cur := c', at_end := b\<rparr>"
            by (cases b) (simp_all add: it0_def)
          with r0 have r: "sord_iter_seek_match_loop db (?it\<lparr>cur := c0, at_end := True\<rparr>)
                 = Some (b, ?it\<lparr>cur := c', at_end := b\<rparr>)" by simp
          from c'0 have c': "c0 \<le> c'" "c' \<le> length db" by (simp_all add: it0_def)
          from skipped0 have skipped:
            "\<forall>j. c0 \<le> j \<and> j < c' \<longrightarrow> \<not> sord_quad_match_inline (db ! j) key"
            by (simp add: it0_def)
          from stop0 have stop: "if b then c' = length db
                       else c' < length db \<and> sord_quad_match_inline (db ! c') key"
            by (cases b) (simp_all add: it0_def)
          have "?body = Some (Some (?it\<lparr>cur := c', at_end := b\<rparr>))"
            unfolding body inew using r fa by (simp add: sord_iter_seek_match_def it0_def)
          moreover have "\<not> sord_quad_match_inline (db ! j) key" if "j < c'" for j
            using that before skipped by (cases "j < c0") (auto simp: sym)
          ultimately show ?thesis
            using stop
            by (intro exI[of _ "Some (?it\<lparr>cur := c', at_end := b\<rparr>)"])
               (auto intro!: exI[of _ c'] exI[of _ b] split: if_splits)
        next
          assume fr: "m = FILTER_RANGE"
          with ok have n3: "n \<le> 3" and bound: "\<forall>q < n. tup_get key q \<noteq> NULL"
            by (simp_all add: mode_ok_def it0_def list_all_iff)
          let ?x = "?it\<lparr>cur := c0\<rparr>"
          have "\<exists>c' b. sord_iter_seek_match_range_loop db ?x
                   = Some (b, ?x\<lparr>cur := c', at_end := (if b then True else at_end ?x)\<rparr>)
              \<and> cur ?x \<le> c' \<and> c' \<le> length db
              \<and> (\<forall>j. cur ?x \<le> j \<and> j < c' \<longrightarrow> \<not> sord_quad_match_inline (db ! j) (pat ?x))
              \<and> (if b then c' = length db
                  \<or> (c' < length db \<and> \<not> sord_quad_match_inline (db ! c') (pat ?x)
                      \<and> \<not> (\<forall>q < n_prefix ?x. sord_id_match (tup_get (db ! c') q) (tup_get (pat ?x) q)))
                  else c' < length db \<and> sord_quad_match_inline (db ! c') (pat ?x))"
            using g c0 n3 by (intro sord_iter_seek_match_range_loop_spec) (simp_all add: it0_def)
          then obtain c' b where
            r0: "sord_iter_seek_match_range_loop db ?x
                   = Some (b, ?x\<lparr>cur := c', at_end := (if b then True else at_end ?x)\<rparr>)"
            and c'0: "cur ?x \<le> c'" "c' \<le> length db"
            and skipped0: "\<forall>j. cur ?x \<le> j \<and> j < c' \<longrightarrow> \<not> sord_quad_match_inline (db ! j) (pat ?x)"
            and stop0: "if b then c' = length db
                  \<or> (c' < length db \<and> \<not> sord_quad_match_inline (db ! c') (pat ?x)
                      \<and> \<not> (\<forall>q < n_prefix ?x. sord_id_match (tup_get (db ! c') q) (tup_get (pat ?x) q)))
                  else c' < length db \<and> sord_quad_match_inline (db ! c') (pat ?x)"
            by blast
          have "?x\<lparr>cur := c', at_end := (if b then True else at_end ?x)\<rparr> = ?it\<lparr>cur := c', at_end := b\<rparr>"
            by (cases b) (simp_all add: it0_def)
          with r0 have r: "sord_iter_seek_match_range_loop db (?it\<lparr>cur := c0\<rparr>)
                 = Some (b, ?it\<lparr>cur := c', at_end := b\<rparr>)" by simp
          from c'0 have c': "c0 \<le> c'" "c' \<le> length db" by (simp_all add: it0_def)
          from skipped0 have skipped:
            "\<forall>j. c0 \<le> j \<and> j < c' \<longrightarrow> \<not> sord_quad_match_inline (db ! j) key"
            by (simp add: it0_def)
          from stop0 have stop: "if b then c' = length db
                  \<or> (c' < length db \<and> \<not> sord_quad_match_inline (db ! c') key
                      \<and> \<not> (\<forall>q < n. sord_id_match (tup_get (db ! c') q) (tup_get key q)))
                else c' < length db \<and> sord_quad_match_inline (db ! c') key"
            by (cases b) (simp_all add: it0_def)
          have res: "?body = Some (Some (?it\<lparr>cur := c', at_end := b\<rparr>))"
            unfolding body inew using r fr by (simp add: sord_iter_seek_match_range_def it0_def)
          have upto: "\<not> sord_quad_match_inline (db ! j) key" if "j < c'" for j
            using that before skipped by (cases "j < c0") (auto simp: sym)
          have behind: "\<not> sord_quad_match_inline (db ! j) key"
            if b "c' < length db" "c' \<le> j" "j < length db" for j
          proof
            assume mj: "sord_quad_match_inline (db ! j) key"
            from that stop have nmc: "\<not> sord_quad_match_inline (db ! c') key"
              and npre: "\<not> (\<forall>q < n. sord_id_match (tup_get (db ! c') q) (tup_get key q))"
              by auto
            from nmc mj that have cj: "c' < j" by (cases "c' = j") auto
            from cu c' cj that have uc: "u \<le> c'" by auto
            with that have ul: "u < length db" by simp
            from uc cj have uj: "u < j" by simp
            from at ul obtain c where
              c: "sord_quad_compare w (db ! u) key = Some c" "0 < c" by blast
            from index_sortedD[OF sorted uj that(4)] obtain d where
              d: "sord_quad_compare w (db ! u) (db ! j) = Some d" "d \<le> 0" by blast
            from ents that(4) have "bound3 (db ! j)" by simp
            from match_agree_key[OF mj this n3 bound] have aj: "agree n (db ! j) key" .
            from n3 have n4: "n \<le> 4" by simp
            from agree_from_greater[OF dist2[OF ul] n4 aj c d]
            have au: "agree n (db ! u) key" .
            with aj have "agree n (db ! u) (db ! j)"
              by (meson agree_sym agree_trans)
            from agree_between[OF sorted distdb uc _ that(4) n4 this] cj
            have "agree n (db ! u) (db ! c')" by simp
            with au have "agree n (db ! c') key"
              by (meson agree_sym agree_trans)
            with npre show False
              by (auto dest: agree_key_prefix)
          qed
          show ?thesis
          proof (cases b)
            case True
            have "\<not> sord_quad_match_inline (db ! j) key" if "j < length db" for j
            proof (cases "j < c'")
              case True
              then show ?thesis by (rule upto)
            next
              case False
              with that c' have "c' < length db" "c' \<le> j" by simp_all
              from behind[OF \<open>b\<close> this that] show ?thesis .
            qed
            with res True show ?thesis
              by (intro exI[of _ "Some (?it\<lparr>cur := c', at_end := b\<rparr>)"])
                 (auto intro!: exI[of _ c'] exI[of _ b])
          next
            case False
            with res stop upto show ?thesis
              by (intro exI[of _ "Some (?it\<lparr>cur := c', at_end := b\<rparr>)"])
                 (auto intro!: exI[of _ c'] exI[of _ b])
          qed
        qed
      qed
    qed
  qed
qed

text \<open>
  The index \<open>sord_best_index\<close> chooses for a pattern without a graph that binds a node,
  in a model with the default index: an index of a triple order that the model has, with
  a mode that fits the key of the pattern.
\<close>

lemma sord_best_index_triple:
  assumes spo: "indices sord DEFAULT_ORDER \<noteq> None"
    and g: "tup_get p TUP_G = NULL"
    and nz: "\<not> (tup_get p 0 = NULL \<and> tup_get p 1 = NULL \<and> tup_get p 2 = NULL)"
    and r: "sord_best_index sord p = (ord, m, n)"
  shows "ord < GSPO \<and> indices sord ord \<noteq> None \<and> m \<noteq> ALL_MODE
     \<and> mode_ok \<lparr>order = ord, cur = 0, pat = permute (orderings ord) p,
           ordering = orderings ord, mode = m, n_prefix = n, at_end = False,
           skip_graphs = True\<rparr>"
proof -
  obtain s pp ob gg where p: "p = (s, pp, ob, gg)" by (cases p)
  with g have gg: "gg = 0" by simp
  consider "s \<noteq> 0" "pp \<noteq> 0" "ob \<noteq> 0" | "s \<noteq> 0" "pp \<noteq> 0" "ob = 0"
    | "s \<noteq> 0" "pp = 0" "ob \<noteq> 0" | "s \<noteq> 0" "pp = 0" "ob = 0"
    | "s = 0" "pp \<noteq> 0" "ob \<noteq> 0" | "s = 0" "pp \<noteq> 0" "ob = 0"
    | "s = 0" "pp = 0" "ob \<noteq> 0"
    using nz p by auto
  then show ?thesis
  proof cases
    case 1
    with r spo p gg show ?thesis
      by (auto simp: sord_best_index_def mode_ok_def bound3_def)
  next
    case 2
    with r spo p gg show ?thesis
      by (auto simp: sord_best_index_def sord_has_index_def mode_ok_def upt_TUP_LEN eval_nat_numeral orderings_def
          split: if_splits)
  next
    case 3
    with r spo p gg show ?thesis
      by (auto simp: sord_best_index_def sord_has_index_def mode_ok_def upt_TUP_LEN eval_nat_numeral orderings_def
          split: if_splits)
  next
    case 4
    with r spo p gg show ?thesis
      by (auto simp: sord_best_index_def sord_has_index_def mode_ok_def upt_TUP_LEN eval_nat_numeral orderings_def
          split: if_splits)
  next
    case 5
    with r spo p gg show ?thesis
      by (auto simp: sord_best_index_def sord_has_index_def mode_ok_def upt_TUP_LEN eval_nat_numeral orderings_def
          split: if_splits)
  next
    case 6
    with r spo p gg show ?thesis
      by (auto simp: sord_best_index_def sord_has_index_def mode_ok_def upt_TUP_LEN eval_nat_numeral orderings_def
          split: if_splits)
  next
    case 7
    with r spo p gg show ?thesis
      by (auto simp: sord_best_index_def sord_has_index_def mode_ok_def upt_TUP_LEN eval_nat_numeral orderings_def
          split: if_splits)
  qed
qed

section \<open>The quads a search yields\<close>

lemma distinct_map_finer:
  assumes "distinct (map f xs)" and "\<forall>x \<in> set xs. \<forall>y \<in> set xs. g x = g y \<longrightarrow> f x = f y"
  shows "distinct (map g xs)"
proof -
  from assms(1) have d: "distinct xs" and i: "inj_on f (set xs)"
    by (simp_all add: distinct_map)
  from i assms(2) have "inj_on g (set xs)"
    unfolding inj_on_def by blast
  with d show ?thesis by (simp add: distinct_map)
qed

text \<open>No key of an index matches the key of a pattern: no quad matches the pattern.\<close>

lemma no_match_quads:
  assumes ord: "ord < GSPO"
    and keys: "set db = set (map (permute (orderings ord)) spo)"
    and ents: "\<forall>q \<in> set spo. bound3 q"
    and g: "tup_get p 3 = NULL"
    and none: "\<forall>j < length db. \<not> sord_quad_match_inline (db ! j) (permute (orderings ord) p)"
  shows "\<forall>q \<in> set spo. \<not> pattern_match p q"
proof
  fix q assume q: "q \<in> set spo"
  with keys have "permute (orderings ord) q \<in> set db" by auto
  then obtain j where "j < length db" "db ! j = permute (orderings ord) q"
    by (auto simp: in_set_conv_nth)
  with none have "\<not> sord_quad_match_inline (permute (orderings ord) q) (permute (orderings ord) p)"
    by metis
  with match_permute[OF ord _ g, of q] ents q show "\<not> pattern_match p q" by simp
qed

text \<open>
  The quads collected from an iterator that rests on the first matching key of a sorted
  index of a triple order: they are quads of the model that match the pattern, every
  quad that matches shares its triple with one of them, and no two of them share a
  triple.
\<close>

lemma collect_yields:
  assumes ord: "ord < GSPO"
    and sorted: "index_sorted w db"
    and keys: "set db = set (map (permute (orderings ord)) spo)"
    and ents: "\<forall>q \<in> set spo. bound3 q"
    and dist: "compare_orders w (concat (map nodes_of spo))"
    and g: "tup_get p 3 = NULL"
    and ok: "mode_ok it" and pat: "pat it = permute (orderings ord) p"
    and ordering: "ordering it = orderings ord"
    and live: "\<not> at_end it" and c: "cur it < length db"
    and first: "sord_quad_match_inline (db ! cur it) (pat it)"
      "\<forall>j < cur it. \<not> sord_quad_match_inline (db ! j) (pat it)"
  shows "\<exists>L. sord_iter_collect db it = Some L
           \<and> (\<forall>q \<in> set L. q \<in> set spo \<and> pattern_match p q)
           \<and> (\<forall>q \<in> set spo. pattern_match p q \<longrightarrow> (\<exists>q' \<in> set L. triple_of q' = triple_of q))
           \<and> distinct (map triple_of L)"
proof -
  let ?o = "orderings ord"
  let ?h = "\<lambda>e. sord_iter_get_loop ?o e (NULL, NULL, NULL, NULL)"
  have key_of: "\<exists>q \<in> set spo. e = permute ?o q" if "e \<in> set db" for e
    using that keys by auto
  have h: "?h (permute ?o q) = q" for q
    by (rule sord_iter_get_permute[OF ord])
  have ents': "\<forall>e \<in> set db. bound3 e"
  proof
    fix e assume "e \<in> set db"
    from key_of[OF this] ents show "bound3 e"
      by (auto simp: bound3_permute[OF ord])
  qed
  have "set (concat (map nodes_of db)) \<subseteq> set (concat (map nodes_of spo))"
  proof
    fix x assume "x \<in> set (concat (map nodes_of db))"
    then obtain e where e: "e \<in> set db" "x \<in> set (nodes_of e)" by auto
    from key_of[OF e(1)] obtain q where "q \<in> set spo" "e = permute ?o q" by blast
    with e(2) nodes_of_permute[OF ord, of q] show "x \<in> set (concat (map nodes_of spo))"
      by auto
  qed
  with dist have dist': "compare_orders w (concat (map nodes_of db))"
    by (rule compare_orders_mono)
  from sord_iter_collect_spec[OF sorted dist' ents' ok live c first(1)] obtain es where
    res: "sord_iter_collect db it = Some (map ?h es)"
    and sound: "\<forall>e \<in> set es. \<exists>pos. cur it \<le> pos \<and> pos < length db \<and> e = db ! pos
                      \<and> sord_quad_match_inline e (pat it)"
    and complete: "\<forall>j. cur it \<le> j \<and> j < length db \<and> sord_quad_match_inline (db ! j) (pat it)
                      \<longrightarrow> (\<exists>e \<in> set es. agree 3 e (db ! j))"
    and once: "distinct (map (\<lambda>e. (tup_get e 0, tup_get e 1, tup_get e 2)) es)"
    unfolding ordering by blast
  have es: "\<exists>q \<in> set spo. e = permute ?o q \<and> ?h e = q \<and> pattern_match p q" if "e \<in> set es" for e
  proof -
    from sound that obtain pos where pos: "pos < length db" "e = db ! pos"
      and m: "sord_quad_match_inline e (pat it)" by blast
    from pos have "e \<in> set db" by simp
    from key_of[OF this] obtain q where q: "q \<in> set spo" "e = permute ?o q" by blast
    with ents have "bound3 q" by simp
    from match_permute[OF ord this g] m q(2) pat have "pattern_match p q" by simp
    with q h show ?thesis by auto
  qed
  have 1: "\<forall>q \<in> set (map ?h es). q \<in> set spo \<and> pattern_match p q"
  proof
    fix q assume "q \<in> set (map ?h es)"
    then obtain e where "e \<in> set es" "q = ?h e" by auto
    with es[OF this(1)] show "q \<in> set spo \<and> pattern_match p q" by auto
  qed
  have 2: "\<forall>q \<in> set spo. pattern_match p q \<longrightarrow> (\<exists>q' \<in> set (map ?h es). triple_of q' = triple_of q)"
  proof (intro ballI impI)
    fix q assume q: "q \<in> set spo" "pattern_match p q"
    with ents have "bound3 q" by simp
    from match_permute[OF ord this g] q(2)
    have m: "sord_quad_match_inline (permute ?o q) (pat it)" by (simp add: pat)
    from q(1) keys have "permute ?o q \<in> set db" by auto
    then obtain j where j: "j < length db" "db ! j = permute ?o q"
      by (auto simp: in_set_conv_nth)
    with m first(2) have "cur it \<le> j" by (metis not_le)
    with complete j m obtain e where e: "e \<in> set es" "agree 3 e (permute ?o q)" by metis
    from es[OF e(1)] obtain q' where q': "e = permute ?o q'" "?h e = q'" by blast
    with e(2) have "agree 3 q' q" by (simp add: agree3_permute[OF ord])
    then have "triple_of q' = triple_of q" by (simp add: agree3_triple_of)
    moreover from e(1) q'(2) have "q' \<in> set (map ?h es)" by force
    ultimately show "\<exists>q' \<in> set (map ?h es). triple_of q' = triple_of q" by blast
  qed
  have "distinct (map (triple_of \<circ> ?h) es)"
  proof (rule distinct_map_finer[OF once], intro ballI impI)
    fix x y assume xy: "x \<in> set es" "y \<in> set es" and eq: "(triple_of \<circ> ?h) x = (triple_of \<circ> ?h) y"
    from es[OF xy(1)] obtain qx where qx: "x = permute ?o qx" "?h x = qx" by blast
    from es[OF xy(2)] obtain qy where qy: "y = permute ?o qy" "?h y = qy" by blast
    from eq qx(2) qy(2) have "agree 3 qx qy" by (simp add: agree3_triple_of)
    then have "agree 3 x y" by (simp add: qx(1) qy(1) agree3_permute[OF ord])
    then show "(tup_get x 0, tup_get x 1, tup_get x 2) = (tup_get y 0, tup_get y 1, tup_get y 2)"
      by (simp add: agree3_iff)
  qed
  then have 3: "distinct (map triple_of (map ?h es))" by simp
  from res 1 2 3 show ?thesis by blast
qed

lemma permute_default: "permute (orderings DEFAULT_ORDER) q = q"
  by (cases q) simp

lemma model_okD:
  assumes "model_ok w sord"
  shows "indices sord DEFAULT_ORDER = Some (quads sord)"
    and "n_quads sord = length (quads sord)"
    and "\<forall>q \<in> set (quads sord). bound3 q"
    and "\<And>i db. i < GSPO \<Longrightarrow> indices sord i = Some db \<Longrightarrow>
           index_sorted w db \<and> set db = set (map (permute (orderings i)) (quads sord))"
proof -
  from assms show "indices sord DEFAULT_ORDER = Some (quads sord)"
    by (auto simp: model_ok_def quads_def)
  from assms show "n_quads sord = length (quads sord)"
    by (simp add: model_ok_def)
  from assms show "\<forall>q \<in> set (quads sord). bound3 q"
    by (simp add: model_ok_def list_all_iff)
  fix i db assume i: "i < GSPO" "indices sord i = Some db"
  from assms have "\<forall>i \<in> set [0 ..< GSPO]. case indices sord i of
        None \<Rightarrow> True
      | Some db \<Rightarrow> index_sorted w db \<and> set db = set (map (permute (orderings i)) (quads sord))"
    unfolding model_ok_def list_all_iff by blast
  with i(1) have "case indices sord i of
        None \<Rightarrow> True
      | Some db \<Rightarrow> index_sorted w db \<and> set db = set (map (permute (orderings i)) (quads sord))"
    by simp
  with i(2) show "index_sorted w db \<and> set db = set (map (permute (orderings i)) (quads sord))"
    by simp
qed

text \<open>
  C1, as amended. In a model whose indices of the triple orders are sorted and hold the
  keys of the same quads, over pointers the comparator orders with the null pointer as
  the minimum, for a pattern with a null graph: the iterator of \<open>sord_find\<close> yields only quads of the model that the
  pattern matches; every quad that the pattern matches shares its subject, predicate
  and object with a quad it yields; and no two quads it yields share them. So it yields
  one quad for each matching triple, and where no two quads of the model share a triple
  it yields exactly the matching quads, each once.
\<close>

theorem sord_find_yields:
  assumes ok: "model_ok w sord"
    and dist: "compare_orders w (nodes_of p @ concat (map nodes_of (quads sord)))"
    and g: "tup_get p TUP_G = NULL"
  shows "\<exists>L. sord_find_results w sord p = Some L
           \<and> (\<forall>q \<in> set L. q \<in> set (quads sord) \<and> pattern_match p q)
           \<and> (\<forall>q \<in> set (quads sord). pattern_match p q \<longrightarrow>
                 (\<exists>q' \<in> set L. triple_of q' = triple_of q))
           \<and> distinct (map triple_of L)
           \<and> (distinct (map triple_of (quads sord)) \<longrightarrow>
                 distinct L \<and> set L = {q \<in> set (quads sord). pattern_match p q})"
proof -
  let ?spo = "quads sord"
  let ?P = "\<lambda>L. (\<forall>q \<in> set L. q \<in> set ?spo \<and> pattern_match p q)
           \<and> (\<forall>q \<in> set ?spo. pattern_match p q \<longrightarrow> (\<exists>q' \<in> set L. triple_of q' = triple_of q))
           \<and> distinct (map triple_of L)"
  note spo = model_okD(1)[OF ok] and nq = model_okD(2)[OF ok] and ents = model_okD(3)[OF ok]
    and idx = model_okD(4)[OF ok]
  from g have g3: "tup_get p 3 = NULL" by simp
  have distq: "compare_orders w (concat (map nodes_of ?spo))"
    by (rule compare_orders_mono[OF dist]) auto
  have core: "\<exists>L. sord_find_results w sord p = Some L \<and> ?P L"
  proof (cases "tup_get p 0 = NULL \<and> tup_get p 1 = NULL \<and> tup_get p 2 = NULL")
    case True
    with g3 have p: "p = (NULL, NULL, NULL, NULL)" by (cases p) simp
    have find: "sord_find w sord p = sord_begin sord"
      by (simp add: p sord_find_def)
    show ?thesis
    proof (cases "?spo = []")
      case True
      with nq have "sord_find_results w sord p = Some []"
        by (simp add: find sord_begin_def sord_num_quads_def sord_find_results_def)
      with True show ?thesis by simp
    next
      case False
      let ?it = "\<lparr>order = DEFAULT_ORDER, cur = 0, pat = (NULL, NULL, NULL, NULL),
          ordering = orderings DEFAULT_ORDER, mode = ALL_MODE, n_prefix = 0, at_end = False,
          skip_graphs = True\<rparr>"
      from False have len: "0 < length ?spo" by simp
      then have "sord_iter_new ?spo 0 (NULL, NULL, NULL, NULL) DEFAULT_ORDER ALL_MODE 0 = Some ?it"
        by (simp add: sord_iter_new_def g_sequence_get_def sord_quad_match_inline_def
            sord_id_match_def)
      with False nq spo have "sord_find w sord p = Some (Some ?it)"
        by (simp add: find sord_begin_def sord_num_quads_def)
      with spo have res: "sord_find_results w sord p = sord_iter_collect ?spo ?it"
        by (simp add: sord_find_results_def)
      have "\<exists>L. sord_iter_collect ?spo ?it = Some L \<and> ?P L"
      proof (rule collect_yields[of DEFAULT_ORDER w ?spo ?spo p ?it])
        show "index_sorted w ?spo" using idx[of DEFAULT_ORDER ?spo] spo by simp
        show "set ?spo = set (map (permute (orderings DEFAULT_ORDER)) ?spo)"
          by (simp add: permute_default del: DEFAULT_ORDER_def)
        show "mode_ok ?it" by (simp add: mode_ok_def)
        show "pat ?it = permute (orderings DEFAULT_ORDER) p"
          by (simp add: permute_default p del: DEFAULT_ORDER_def)
        show "sord_quad_match_inline (?spo ! cur ?it) (pat ?it)"
          by (simp add: sord_quad_match_inline_def sord_id_match_def)
      qed (use ents distq g3 len in simp_all)
      with res show ?thesis by simp
    qed
  next
    case False
    obtain ord m n where bi: "sord_best_index sord p = (ord, m, n)"
      by (cases "sord_best_index sord p")
    let ?key = "permute (orderings ord) p"
    let ?it0 = "\<lparr>order = ord, cur = 0, pat = ?key, ordering = orderings ord, mode = m,
        n_prefix = n, at_end = False, skip_graphs = True\<rparr>"
    from spo have "indices sord DEFAULT_ORDER \<noteq> None" by simp
    from sord_best_index_triple[OF this g False bi] obtain db where
      ord: "ord < GSPO" and db: "indices sord ord = Some db" and m: "m \<noteq> ALL_MODE"
      and mok: "mode_ok ?it0" by blast
    from idx[OF ord db] have sorted: "index_sorted w db"
      and keys: "set db = set (map (permute (orderings ord)) ?spo)" by simp_all
    from graph_permute[OF ord, of p] g3 have key3: "tup_get ?key 3 = NULL" by simp
    have ents': "\<forall>e \<in> set db. bound3 e"
      using keys ents by (auto simp: bound3_permute[OF ord])
    have "set (concat (map nodes_of (?key # db))) \<subseteq> set (nodes_of p @ concat (map nodes_of ?spo))"
    proof
      fix x assume "x \<in> set (concat (map nodes_of (?key # db)))"
      then consider "x \<in> set (nodes_of ?key)" | e where "e \<in> set db" "x \<in> set (nodes_of e)"
        by auto
      then show "x \<in> set (nodes_of p @ concat (map nodes_of ?spo))"
      proof cases
        case 1
        with nodes_of_permute[OF ord, of p] show ?thesis by simp
      next
        case 2
        from 2(1) keys obtain q where "q \<in> set ?spo" "e = permute (orderings ord) q" by auto
        with 2(2) nodes_of_permute[OF ord, of q] show ?thesis by auto
      qed
    qed
    with dist have dist': "compare_orders w (concat (map nodes_of (?key # db)))"
      by (rule compare_orders_mono)
    have find: "sord_find w sord p =
       (case index_lower_bound w db ?key of
               None \<Rightarrow> None
             | Some c \<Rightarrow>
                 if g_sequence_iter_is_end db c then Some None
                 else (case g_sequence_get db c of
                     None \<Rightarrow> None
                   | Some k \<Rightarrow>
                       if (m = RANGE \<or> m = SINGLE) \<and> \<not> sord_quad_match_inline ?key k
                       then Some None
                       else map_option Some (sord_iter_new db c p ord m n)))"
    proof -
      have nall: "(tup_get p 0 = NULL \<and> tup_get p 1 = NULL \<and> tup_get p 2 = NULL
          \<and> tup_get p 3 = NULL) = False"
        using False by blast
      show ?thesis
        unfolding sord_find_def nall bi using db key3 by (simp add: Let_def)
    qed
    from sord_find_start[OF sorted dist' ents' ord refl m mok] obtain r where
      r: "sord_find w sord p = Some r"
      and post: "case r of
                 None \<Rightarrow> \<forall>j < length db. \<not> sord_quad_match_inline (db ! j) ?key
               | Some it \<Rightarrow> \<exists>c b. it = ?it0\<lparr>cur := c, at_end := b\<rparr>
                   \<and> (if b then \<forall>j < length db. \<not> sord_quad_match_inline (db ! j) ?key
                       else c < length db \<and> sord_quad_match_inline (db ! c) ?key
                         \<and> (\<forall>j < c. \<not> sord_quad_match_inline (db ! j) ?key))"
      unfolding find[symmetric] by blast
    have empty: "?P []" if "\<forall>j < length db. \<not> sord_quad_match_inline (db ! j) ?key"
      using no_match_quads[OF ord keys ents g3 that] by simp
    show ?thesis
    proof (cases r)
      case None
      with r have "sord_find_results w sord p = Some []"
        by (simp add: sord_find_results_def)
      with empty post None show ?thesis by simp
    next
      case (Some it)
      with post obtain c b where it: "it = ?it0\<lparr>cur := c, at_end := b\<rparr>"
        and stop: "if b then \<forall>j < length db. \<not> sord_quad_match_inline (db ! j) ?key
                       else c < length db \<and> sord_quad_match_inline (db ! c) ?key
                         \<and> (\<forall>j < c. \<not> sord_quad_match_inline (db ! j) ?key)"
        by auto
      from r Some db it have res: "sord_find_results w sord p = sord_iter_collect db it"
        by (simp add: sord_find_results_def)
      show ?thesis
      proof (cases b)
        case True
        with it have "sord_iter_collect db it = Some []"
          by (subst sord_iter_collect.simps) simp
        with res empty stop True show ?thesis by simp
      next
        case nb: False
        have "\<exists>L. sord_iter_collect db it = Some L \<and> ?P L"
        proof (rule collect_yields[of ord w db ?spo p it])
          show "mode_ok it" unfolding it mode_ok_moved by (rule mok)
          show "pat it = ?key" by (simp add: it)
          show "ordering it = orderings ord" by (simp add: it)
          show "\<not> at_end it" using nb by (simp add: it)
          show "cur it < length db" using stop nb by (simp add: it)
          show "sord_quad_match_inline (db ! cur it) (pat it)" using stop nb by (simp add: it)
          show "\<forall>j < cur it. \<not> sord_quad_match_inline (db ! j) (pat it)"
            using stop nb by (simp add: it)
        qed (use ord sorted keys ents distq g3 in simp_all)
        with res show ?thesis by simp
      qed
    qed
  qed
  then obtain L where L: "sord_find_results w sord p = Some L"
    and sound: "\<forall>q \<in> set L. q \<in> set ?spo \<and> pattern_match p q"
    and complete: "\<forall>q \<in> set ?spo. pattern_match p q \<longrightarrow> (\<exists>q' \<in> set L. triple_of q' = triple_of q)"
    and once: "distinct (map triple_of L)" by blast
  have "distinct L \<and> set L = {q \<in> set ?spo. pattern_match p q}"
    if dq: "distinct (map triple_of ?spo)"
  proof
    from once show "distinct L" by (simp add: distinct_map)
    from dq have inj: "inj_on triple_of (set ?spo)" by (simp add: distinct_map)
    show "set L = {q \<in> set ?spo. pattern_match p q}"
    proof (intro equalityI subsetI)
      fix q assume "q \<in> set L"
      with sound show "q \<in> {q \<in> set ?spo. pattern_match p q}" by simp
    next
      fix q assume "q \<in> {q \<in> set ?spo. pattern_match p q}"
      then have q: "q \<in> set ?spo" "pattern_match p q" by simp_all
      with complete obtain q' where q': "q' \<in> set L" "triple_of q' = triple_of q" by blast
      with sound have "q' \<in> set ?spo" by simp
      with inj q(1) q'(2) have "q' = q" by (simp add: inj_on_def)
      with q'(1) show "q \<in> set L" by simp
    qed
  qed
  with L sound complete once show ?thesis by blast
qed

theorem sord_find_yields_witness:
  "model_ok (fst model_four) (snd model_four)
   \<and> compare_orders (fst model_four)
        (nodes_of (1, NULL, 3, NULL) @ concat (map nodes_of (quads (snd model_four))))
   \<and> tup_get (1, NULL, 3, NULL) TUP_G = NULL
   \<and> quads (snd model_four) = [(1, 2, 3, NULL), (1, 2, 3, 4), (1, 2, 4, NULL), (1, 5, 3, NULL)]
   \<and> sord_find_results (fst model_four) (snd model_four) (1, NULL, 3, NULL)
        = Some [(1, 2, 3, NULL), (1, 5, 3, NULL)]
   \<and> (\<exists>L. sord_find_results (fst model_four) (snd model_four) (1, NULL, 3, NULL) = Some L
         \<and> (\<forall>q \<in> set L. q \<in> set (quads (snd model_four)) \<and> pattern_match (1, NULL, 3, NULL) q)
         \<and> (\<forall>q \<in> set (quads (snd model_four)). pattern_match (1, NULL, 3, NULL) q \<longrightarrow>
               (\<exists>q' \<in> set L. triple_of q' = triple_of q))
         \<and> distinct (map triple_of L)
         \<and> (distinct (map triple_of (quads (snd model_four))) \<longrightarrow>
               distinct L
               \<and> set L = {q \<in> set (quads (snd model_four)). pattern_match (1, NULL, 3, NULL) q}))"
proof -
  let ?p = "(1, NULL, 3, NULL) :: SordQuad"
  have m: "model_ok (fst model_four) (snd model_four)" by code_simp
  have d: "compare_orders (fst model_four)
        (nodes_of ?p @ concat (map nodes_of (quads (snd model_four))))" by code_simp
  have g: "tup_get ?p TUP_G = NULL" by simp
  have q: "quads (snd model_four) = [(1, 2, 3, NULL), (1, 2, 3, 4), (1, 2, 4, NULL), (1, 5, 3, NULL)]"
    by code_simp
  have v: "sord_find_results (fst model_four) (snd model_four) ?p
        = Some [(1, 2, 3, NULL), (1, 5, 3, NULL)]" by code_simp
  note c = sord_find_yields[OF m d g]
  from m d g q v c show ?thesis
    by - (intro conjI, assumption+)
qed

text \<open>
  C1 as stated fails where two quads of the model differ in their graph only. In the
  model with the indices SPO and GSPO that holds (a, b, c) in the default graph and in
  the graph d, the pattern (a, *, *, *) matches both quads; the iterator walks the
  index SPO with \<open>skip_graphs\<close> set and yields the first only.
\<close>

theorem sord_find_skips_graph_duplicate:
  "model_ok (fst model_graph_pair) (snd model_graph_pair)
   \<and> quads (snd model_graph_pair) = [(1, 2, 3, NULL), (1, 2, 3, 4)]
   \<and> pattern_match (1, NULL, NULL, NULL) (1, 2, 3, 4)
   \<and> sord_find_results (fst model_graph_pair) (snd model_graph_pair) (1, NULL, NULL, NULL)
        = Some [(1, 2, 3, NULL)]"
  by code_simp

section \<open>Addresses with bit 31 set\<close>

lemma sord_node_compare_uris:
  assumes "nodes w a = Some na" and "nodes w b = Some nb" and "a \<noteq> b"
    and "a \<noteq> NULL" and "b \<noteq> NULL"
    and "node_type na = SORD_URI" and "node_type nb = SORD_URI"
  shows "sord_node_compare w a b = Some (strcmp (buf na) (buf nb))"
  using assms by (subst sord_node_compare.simps) simp

lemma high_sorted: "index_sorted world_high index_high"
  by (simp add: index_sorted_def index_high_def sord_quad_compare_def upt_TUP_LEN
      sord_id_compare_def ptr_diff_def sord_node_compare_uris world_high_def uri_node_def)

lemma high_search:
  "g_sequence_search (sord_quad_compare world_high) index_high (2147483664, NULL, 2147483696, NULL) = Some 3"
  by (simp add: index_high_def sord_quad_compare_def upt_TUP_LEN
      sord_id_compare_def ptr_diff_def sord_node_compare_uris world_high_def uri_node_def)

lemma high_lower_bound:
  "index_lower_bound world_high index_high (2147483664, NULL, 2147483696, NULL) = Some 2"
  unfolding index_lower_bound_def high_search
  by (simp add: index_lower_bound_iter_def index_high_def
      g_sequence_iter_is_begin_def g_sequence_iter_is_end_def g_sequence_iter_prev_def
      g_sequence_get_def index_lower_bound_loop.simps
      sord_quad_match_inline_def sord_id_match_def)

lemma high_best:
  "sord_best_index model_high (2147483664, NULL, 2147483696, NULL) = (SPO, FILTER_RANGE, 1)"
  by (simp add: sord_best_index_def sord_has_index_def model_high_def)

lemma high_find:
  "sord_find_results world_high model_high (2147483664, NULL, 2147483696, NULL)
     = Some [(2147483664, 2147483728, 2147483696, NULL)]"
proof -
  note lb = high_lower_bound[unfolded index_high_def, simplified]
  show ?thesis
    unfolding sord_find_results_def sord_find_def high_best
    by (simp add: model_high_def orderings_def lb index_high_def
      g_sequence_iter_is_end_def g_sequence_get_def
      sord_iter_new_def sord_iter_seek_match_range_def
      sord_iter_seek_match_range_loop.simps sord_quad_match_inline_def sord_id_match_def
      prefix_match_def sord_iter_forward_def sord_iter_forward_loop.simps
      g_sequence_iter_next_def
      sord_iter_collect.simps sord_iter_get_def sord_iter_next_def Let_def)
qed

lemma high_model_ok: "model_ok world_high model_high"
proof -
  have len: "length index_high = 4" by (simp add: index_high_def)
  have b3: "list_all bound3 index_high" by (simp add: index_high_def bound3_def)
  have keys: "map (permute (orderings DEFAULT_ORDER)) index_high = index_high"
    by (intro map_idI permute_default)
  have upt: "[0 ..< GSPO] = [0, 1, 2, 3, 4, 5]" by code_simp
  from len b3 keys high_sorted show ?thesis
    unfolding model_ok_def quads_def upt
    by (simp add: model_high_def)
qed

text \<open>
  Where the addresses of the nodes have bit 31 set, the null pointer is not the minimum
  of the comparator, and a search that filters loses quads: in the model with the index
  SPO only that holds (a, b, c), (a, b, d), (a, e, c) and (b, e, c), the pattern
  (a, *, c, *) matches (a, b, c) and (a, e, c); every key with the subject a compares
  less than the key of the pattern, the search starts at (a, e, c), and (a, b, c) is
  not yielded.
\<close>

lemma sord_find_high_addresses:
  "model_ok world_high model_high
   \<and> \<not> compare_orders world_high [2147483664, NULL]
   \<and> quads model_high = index_high
   \<and> pattern_match (2147483664, NULL, 2147483696, NULL) (index_high ! 0)
   \<and> sord_find_results world_high model_high (2147483664, NULL, 2147483696, NULL)
        = Some [index_high ! 2]"
proof -
  have "\<not> compare_orders world_high [2147483664, NULL]"
    by (simp add: compare_orders_def sord_id_compare_def ptr_diff_def)
  moreover have "quads model_high = index_high"
    by (simp add: quads_def model_high_def)
  moreover have "pattern_match (2147483664, NULL, 2147483696, NULL) (index_high ! 0)"
    by (simp add: pattern_match_def index_high_def upt_TUP_LEN)
  moreover have "index_high ! 2 = (2147483664, 2147483728, 2147483696, NULL)"
    by (simp add: index_high_def)
  ultimately show ?thesis
    using high_model_ok high_find by simp
qed

end
